theory Spec2Isabelle
  imports Complex_Main "HOL-Library.AList"
begin

section \<open>Numbers of the host language\<close>

text \<open>
  The program computes with the numbers of its host language (IEEE doubles). They are
  modelled as exact rationals together with the three special values the program can
  meet: the not-a-number value that \<^verbatim>\<open>parseFloat\<close> and \<^verbatim>\<open>parseInt\<close> return on text without
  a numeric prefix, and the two infinities that \<^verbatim>\<open>parseFloat\<close> reads from the word
  \<^verbatim>\<open>Infinity\<close>. Binary rounding, the negative zero and the exponent notation in which
  integers of 22 digits and more are printed are outside this model.
\<close>

datatype jsnum = NaN | PInf | NInf | Fin rat

fun isNaN :: "jsnum \<Rightarrow> bool" where
  "isNaN NaN = True"
| "isNaN _ = False"

text \<open>A finite number: neither not-a-number nor an infinity. The program never asks for it.\<close>

definition isFinite :: "jsnum \<Rightarrow> bool" where
  "isFinite v = (case v of Fin a \<Rightarrow> True | _ \<Rightarrow> False)"

fun jneg :: "jsnum \<Rightarrow> jsnum" where
  "jneg NaN = NaN"
| "jneg PInf = NInf"
| "jneg NInf = PInf"
| "jneg (Fin a) = Fin (- a)"

fun jadd :: "jsnum \<Rightarrow> jsnum \<Rightarrow> jsnum" where
  "jadd (Fin a) (Fin b) = Fin (a + b)"
| "jadd NaN _ = NaN"
| "jadd _ NaN = NaN"
| "jadd PInf NInf = NaN"
| "jadd NInf PInf = NaN"
| "jadd PInf _ = PInf"
| "jadd NInf _ = NInf"
| "jadd _ PInf = PInf"
| "jadd _ NInf = NInf"

definition jsub :: "jsnum \<Rightarrow> jsnum \<Rightarrow> jsnum" where
  "jsub a b = jadd a (jneg b)"

fun jabs :: "jsnum \<Rightarrow> jsnum" where
  "jabs NaN = NaN"
| "jabs PInf = PInf"
| "jabs NInf = PInf"
| "jabs (Fin a) = Fin \<bar>a\<bar>"

text \<open>The comparison \<^verbatim>\<open>a < b\<close>: false as soon as one side is not a number.\<close>

fun jless :: "jsnum \<Rightarrow> jsnum \<Rightarrow> bool" where
  "jless (Fin a) (Fin b) = (a < b)"
| "jless NaN _ = False"
| "jless _ NaN = False"
| "jless NInf NInf = False"
| "jless NInf _ = True"
| "jless _ NInf = False"
| "jless PInf _ = False"
| "jless _ PInf = True"

text \<open>The comparison \<^verbatim>\<open>a <= b\<close>.\<close>

definition jle :: "jsnum \<Rightarrow> jsnum \<Rightarrow> bool" where
  "jle a b = (jless a b \<or> (\<not> isNaN a \<and> a = b))"

text \<open>Division by two, \<^verbatim>\<open>a / 2\<close>.\<close>

fun jhalf :: "jsnum \<Rightarrow> jsnum" where
  "jhalf (Fin a) = Fin (a / 2)"
| "jhalf v = v"

text \<open>\<^verbatim>\<open>Math.round\<close>: the nearest integer, a tie going up.\<close>

fun mathRound :: "jsnum \<Rightarrow> jsnum" where
  "mathRound (Fin a) = Fin (of_int \<lfloor>a + 1 / 2\<rfloor>)"
| "mathRound v = v"

text \<open>\<^verbatim>\<open>Math.min(...vs)\<close>: infinity on no argument, not a number as soon as one argument is.\<close>

fun jmin2 :: "jsnum \<Rightarrow> jsnum \<Rightarrow> jsnum" where
  "jmin2 NaN _ = NaN"
| "jmin2 _ NaN = NaN"
| "jmin2 a b = (if jless b a then b else a)"

definition mathMin :: "jsnum list \<Rightarrow> jsnum" where
  "mathMin vs = foldr jmin2 vs PInf"

section \<open>Strings of the host language\<close>

text \<open>
  A string is a list of characters. The white space that \<^verbatim>\<open>trim\<close> and the number parsers
  skip is the white space of the Latin-1 range: tab, line feed, vertical tab, form feed,
  carriage return, space and the no-break space.
\<close>

definition is_space :: "char \<Rightarrow> bool" where
  "is_space c = (c \<in> {CHR 0x09, CHR 0x0A, CHR 0x0B, CHR 0x0C, CHR 0x0D, CHR '' '', CHR 0xA0})"

definition trimStart :: "string \<Rightarrow> string" where
  "trimStart s = dropWhile is_space s"

definition trim :: "string \<Rightarrow> string" where
  "trim s = rev (dropWhile is_space (rev (dropWhile is_space s)))"

text \<open>\<^verbatim>\<open>s.split(c)\<close> for a separator of one character: never the empty list.\<close>

function split :: "char \<Rightarrow> string \<Rightarrow> string list" where
  "split c s =
     (case dropWhile (\<lambda>x. x \<noteq> c) s of
        [] \<Rightarrow> [s]
      | _ # rest \<Rightarrow> takeWhile (\<lambda>x. x \<noteq> c) s # split c rest)"
  by pat_completeness auto
termination
proof (relation "measure (\<lambda>(c, s). length s)", goal_cases)
  case 1
  show ?case by simp
next
  case (2 c s x rest)
  have "length (dropWhile (\<lambda>x. x \<noteq> c) s) \<le> length s"
    by (rule length_dropWhile_le)
  with 2 show ?case by simp
qed

declare split.simps [simp del]

text \<open>\<^verbatim>\<open>xs.join(sep)\<close>.\<close>

fun join :: "string \<Rightarrow> string list \<Rightarrow> string" where
  "join sep [] = []"
| "join sep [x] = x"
| "join sep (x # y # ys) = x @ sep @ join sep (y # ys)"

text \<open>
  Reading an array position that may be missing (\<^verbatim>\<open>parts[2]\<close>, or a name bound by
  destructuring): \<^verbatim>\<open>undefined\<close> is \<open>None\<close>.
\<close>

definition nth_opt :: "'a list \<Rightarrow> nat \<Rightarrow> 'a option" where
  "nth_opt xs i = (if i < length xs then Some (xs ! i) else None)"

subsection \<open>Digits\<close>

definition is_digit :: "char \<Rightarrow> bool" where
  "is_digit c = (48 \<le> (of_char c :: int) \<and> (of_char c :: int) \<le> 57)"

definition digit_val :: "char \<Rightarrow> int" where
  "digit_val c = of_char c - 48"

definition digit_char :: "int \<Rightarrow> char" where
  "digit_char d = char_of (48 + d)"

text \<open>The value of a run of decimal digits, most significant first.\<close>

definition digits_val :: "string \<Rightarrow> int" where
  "digits_val ds = foldl (\<lambda>acc c. 10 * acc + digit_val c) 0 ds"

text \<open>The decimal digits of an integer that is not negative.\<close>

function int_digits :: "int \<Rightarrow> string" where
  "int_digits n = (if n < 10 then [digit_char n] else int_digits (n div 10) @ [digit_char (n mod 10)])"
  by pat_completeness auto
termination
  by (relation "measure nat") auto

declare int_digits.simps [simp del]

text \<open>The decimal text of an integer, as a template literal prints it.\<close>

definition intToString :: "int \<Rightarrow> string" where
  "intToString n = (if n < 0 then CHR ''-'' # int_digits (- n) else int_digits n)"

text \<open>
  The text that a template literal inserts for \<^verbatim>\<open>Math.round(v)\<close>: the program prints
  numbers only in this form, rounded to an integer first.
\<close>

fun roundedString :: "jsnum \<Rightarrow> string" where
  "roundedString NaN = ''NaN''"
| "roundedString PInf = ''Infinity''"
| "roundedString NInf = ''-Infinity''"
| "roundedString (Fin a) = intToString \<lfloor>a + 1 / 2\<rfloor>"

subsection \<open>Number parsers\<close>

text \<open>An optional sign: whether it is a minus, and the rest of the text.\<close>

fun take_sign :: "string \<Rightarrow> bool \<times> string" where
  "take_sign [] = (False, [])"
| "take_sign (c # cs) =
     (if c = CHR ''-'' then (True, cs)
      else if c = CHR ''+'' then (False, cs)
      else (False, c # cs))"

text \<open>
  \<^verbatim>\<open>parseInt(s, 10)\<close>: white space, an optional sign, then the longest run of digits;
  not a number when that run is empty.
\<close>

definition parseInt :: "string \<Rightarrow> jsnum" where
  "parseInt s =
     (let (neg, r) = take_sign (trimStart s);
          ds = takeWhile is_digit r
      in if ds = [] then NaN
         else Fin (of_int (if neg then - digits_val ds else digits_val ds)))"

text \<open>The exponent part \<^verbatim>\<open>e\<close>, sign, digits at the head of the text; zero when there is none.\<close>

definition exponent_of :: "string \<Rightarrow> int" where
  "exponent_of r =
     (case r of
        [] \<Rightarrow> 0
      | c # t \<Rightarrow>
          if c = CHR ''e'' \<or> c = CHR ''E'' then
            (let (neg, t2) = take_sign t;
                 ds = takeWhile is_digit t2
             in if ds = [] then 0
                else if neg then - digits_val ds else digits_val ds)
          else 0)"

definition scale10 :: "rat \<Rightarrow> int \<Rightarrow> rat" where
  "scale10 v e = (if 0 \<le> e then v * 10 ^ nat e else v / 10 ^ nat (- e))"

text \<open>
  \<^verbatim>\<open>parseFloat(s)\<close>: white space, an optional sign, then the longest prefix that is a
  decimal literal (\<^verbatim>\<open>Infinity\<close>, or digits with an optional fraction and an optional
  exponent); not a number when there is no such prefix.
\<close>

definition parseFloat :: "string \<Rightarrow> jsnum" where
  "parseFloat s =
     (let (neg, r) = take_sign (trimStart s)
      in if take 8 r = ''Infinity'' then (if neg then NInf else PInf)
         else
           (let ip = takeWhile is_digit r;
                r1 = dropWhile is_digit r;
                (fp, r2) = (case r1 of
                              [] \<Rightarrow> ([], r1)
                            | c # t \<Rightarrow> if c = CHR ''.'' then (takeWhile is_digit t, dropWhile is_digit t)
                                       else ([], r1))
            in if ip = [] \<and> fp = [] then NaN
               else
                 (let m = scale10 (of_int (digits_val (ip @ fp))) (exponent_of r2 - int (length fp))
                  in Fin (if neg then - m else m))))"

text \<open>\<^verbatim>\<open>parseFloat\<close> of a name that destructuring may have left \<^verbatim>\<open>undefined\<close>.\<close>

definition parseFloatOpt :: "string option \<Rightarrow> jsnum" where
  "parseFloatOpt s = (case s of None \<Rightarrow> NaN | Some t \<Rightarrow> parseFloat t)"

section \<open>The record codec\<close>

record TreeNodeData =
  tn_id :: string
  tn_label :: string
  tn_children :: "string list"
  tn_position :: "(jsnum \<times> jsnum) option"

text \<open>The body of the loop of \<^verbatim>\<open>parseCSV\<close>: \<open>None\<close> is the \<^verbatim>\<open>continue\<close> on a short line.\<close>

definition parseLine :: "string \<Rightarrow> TreeNodeData option" where
  "parseLine line =
     (let parts = split CHR '','' line
      in if length parts < 2 then None
         else
           (let ident = trim (parts ! 0);
                label = trim (parts ! 1);
                childrenStr = (case nth_opt parts 2 of None \<Rightarrow> [] | Some p \<Rightarrow> trim p);
                children = (if childrenStr \<noteq> []
                            then filter (\<lambda>c. c \<noteq> []) (map trim (split CHR '';'' childrenStr))
                            else []);
                positionStr = map_option trim (nth_opt parts 3);
                position =
                  (case positionStr of
                     None \<Rightarrow> None
                   | Some ps \<Rightarrow>
                       if ps \<noteq> [] then
                         (let xy = split CHR '';'' ps;
                              x = parseFloatOpt (nth_opt xy 0);
                              y = parseFloatOpt (nth_opt xy 1)
                          in if \<not> isNaN x \<and> \<not> isNaN y then Some (x, y) else None)
                       else None)
            in Some \<lparr>tn_id = ident, tn_label = label, tn_children = children,
                     tn_position = position\<rparr>))"

definition parseCSV :: "string \<Rightarrow> TreeNodeData list" where
  "parseCSV content = List.map_filter parseLine (split (CHR 0x0A) (trim content))"

section \<open>The graph model\<close>

text \<open>
  \<^verbatim>\<open>new Map(treeNodes.map(n => [n.id, n]))\<close>: the constructor stores the entries one
  after the other, so a later entry replaces an earlier one under the same key.
\<close>

definition nodeMap :: "TreeNodeData list \<Rightarrow> (string \<rightharpoonup> TreeNodeData)" where
  "nodeMap treeNodes = fold (\<lambda>n m. m(tn_id n \<mapsto> n)) treeNodes Map.empty"

definition COLORS :: "string list" where
  "COLORS = [''#2563eb'', ''#dc2626'', ''#16a34a'', ''#9333ea'', ''#ea580c'', ''#0891b2'',
             ''#db2777'', ''#65a30d'', ''#7c3aed'', ''#ca8a04'', ''#0d9488'', ''#e11d48'']"

text \<open>The \<^verbatim>\<open>forEach\<close> that fills \<^verbatim>\<open>nodeColors\<close>, by index in input order.\<close>

definition nodeColors :: "TreeNodeData list \<Rightarrow> (string \<rightharpoonup> string)" where
  "nodeColors treeNodes =
     fold (\<lambda>(index, node) m. m(tn_id node \<mapsto> COLORS ! (index mod length COLORS)))
       (enumerate 0 treeNodes) Map.empty"

text \<open>\<^verbatim>\<open>nodeColors.get(id) ?? COLORS[0]\<close>.\<close>

definition colorOf :: "TreeNodeData list \<Rightarrow> string \<Rightarrow> string" where
  "colorOf treeNodes nodeId = (case nodeColors treeNodes nodeId of Some c \<Rightarrow> c | None \<Rightarrow> COLORS ! 0)"

subsection \<open>Depth assignment\<close>

text \<open>
  \<^verbatim>\<open>nodeDepths\<close> is a \<^verbatim>\<open>Map\<close> that is later iterated, so its insertion order matters: it
  is an association list, \<open>map_of\<close> is \<^verbatim>\<open>get\<close>/\<^verbatim>\<open>has\<close> and \<open>AList.update\<close> is \<^verbatim>\<open>set\<close>
  (a new key goes to the end, a known key keeps its place).

  \<^verbatim>\<open>assignDepth\<close> is the recursive closure of the source; \<open>assignDepthChildren\<close> is its
  \<^verbatim>\<open>for (const childId of node.children)\<close> loop, which threads the map through the calls.
\<close>

type_synonym depths = "(string \<times> nat) list"

function assignDepth :: "TreeNodeData list \<Rightarrow> string \<Rightarrow> nat \<Rightarrow> depths \<Rightarrow> depths"
  and assignDepthChildren :: "TreeNodeData list \<Rightarrow> string list \<Rightarrow> nat \<Rightarrow> depths \<Rightarrow> depths"
where
  "assignDepth treeNodes nodeId depth nodeDepths =
     (case map_of nodeDepths nodeId of
        Some old \<Rightarrow> (if depth > old then AList.update nodeId depth nodeDepths else nodeDepths)
      | None \<Rightarrow>
          (case nodeMap treeNodes nodeId of
             Some node \<Rightarrow>
               assignDepthChildren treeNodes (tn_children node) (depth + 1)
                 (AList.update nodeId depth nodeDepths)
           | None \<Rightarrow> AList.update nodeId depth nodeDepths))"
| "assignDepthChildren treeNodes [] depth nodeDepths = nodeDepths"
| "assignDepthChildren treeNodes (childId # rest) depth nodeDepths =
     assignDepthChildren treeNodes rest depth (assignDepth treeNodes childId depth nodeDepths)"
  by pat_completeness auto

lemma dom_nodeMap_fold: "dom (fold (\<lambda>n m. m(tn_id n \<mapsto> n)) ns m0) = dom m0 \<union> tn_id ` set ns"
  by (induction ns arbitrary: m0) auto

lemma dom_nodeMap: "dom (nodeMap ns) = tn_id ` set ns"
  by (simp add: nodeMap_def dom_nodeMap_fold)

text \<open>
  The recursion is nested through the map, so its termination rests on a fact about its
  own result: a call never removes a key. The fact is proved on the domain of the
  function first.
\<close>

lemma assignDepth_keys_partial:
  "assignDepth_assignDepthChildren_dom (Inl (ns, i, d, ds)) \<Longrightarrow>
     fst ` set ds \<subseteq> fst ` set (assignDepth ns i d ds)"
  "assignDepth_assignDepthChildren_dom (Inr (ns, cs, d, ds)) \<Longrightarrow>
     fst ` set ds \<subseteq> fst ` set (assignDepthChildren ns cs d ds)"
proof (induction ns i d ds and ns cs d ds rule: assignDepth_assignDepthChildren.pinduct)
  case (1 treeNodes nodeId depth nodeDepths)
  show ?case
  proof (cases "map_of nodeDepths nodeId")
    case None
    note unvisited = this
    show ?thesis
    proof (cases "nodeMap treeNodes nodeId")
      case None
      with unvisited 1(1) show ?thesis
        by (simp add: assignDepth.psimps AList.dom_update) blast
    next
      case (Some node)
      with unvisited 1(1) 1(2)[OF unvisited Some] show ?thesis
        by (simp add: assignDepth.psimps AList.dom_update)
    qed
  next
    case (Some old)
    with 1(1) show ?thesis
      by (simp add: assignDepth.psimps AList.dom_update) blast
  qed
next
  case (2 treeNodes depth nodeDepths)
  then show ?case by (simp add: assignDepthChildren.psimps)
next
  case (3 treeNodes childId rest depth nodeDepths)
  then show ?case by (simp add: assignDepthChildren.psimps)
qed

text \<open>
  The measure: the number of parsed ids that have no depth yet, then the number of
  children still to visit. Expanding a node gives a depth to a parsed id that had none.
\<close>

termination assignDepth
proof (relation "inv_image (less_than <*lex*> less_than)
    (\<lambda>x. case x of
       Inl (ns, i, d, ds) \<Rightarrow> (card (dom (nodeMap ns) - fst ` set ds), 0)
     | Inr (ns, cs, d, ds) \<Rightarrow> (card (dom (nodeMap ns) - fst ` set ds), Suc (length cs)))",
    goal_cases)
  case 1
  then show ?case by (simp add: wf_lex_prod)
next
  case (2 treeNodes nodeId depth nodeDepths node)
  have fin: "finite (dom (nodeMap treeNodes))" by (simp add: dom_nodeMap)
  from 2 have a: "nodeId \<in> dom (nodeMap treeNodes)" by auto
  from 2 have b: "nodeId \<notin> fst ` set nodeDepths" by (simp add: map_of_eq_None_iff)
  have "dom (nodeMap treeNodes) - insert nodeId (fst ` set nodeDepths)
      \<subset> dom (nodeMap treeNodes) - fst ` set nodeDepths"
    using a b by auto
  then have "card (dom (nodeMap treeNodes) - insert nodeId (fst ` set nodeDepths))
      < card (dom (nodeMap treeNodes) - fst ` set nodeDepths)"
    using fin by (intro psubset_card_mono) auto
  then show ?case by (simp add: AList.dom_update)
next
  case (3 treeNodes childId rest depth nodeDepths)
  then show ?case by simp
next
  case (4 treeNodes childId rest depth nodeDepths)
  have fin: "finite (dom (nodeMap treeNodes))" by (simp add: dom_nodeMap)
  have "dom (nodeMap treeNodes) - fst ` set (assignDepth treeNodes childId depth nodeDepths)
      \<subseteq> dom (nodeMap treeNodes) - fst ` set nodeDepths"
    using assignDepth_keys_partial(1)[OF 4] by blast
  then have "card (dom (nodeMap treeNodes) - fst ` set (assignDepth treeNodes childId depth nodeDepths))
      \<le> card (dom (nodeMap treeNodes) - fst ` set nodeDepths)"
    using fin by (intro card_mono) auto
  then show ?case by auto
qed

declare assignDepth.simps [simp del]

text \<open>The ids that no \<^verbatim>\<open>children\<close> list names.\<close>

definition rootIds :: "TreeNodeData list \<Rightarrow> string list" where
  "rootIds treeNodes =
     (let allChildIds = set (concat (map tn_children treeNodes))
      in map tn_id (filter (\<lambda>n. tn_id n \<notin> allChildIds) treeNodes))"

text \<open>
  The body of the second loop: \<^verbatim>\<open>if (!nodeDepths.has(node.id)) assignDepth(node.id, 0)\<close>.
\<close>

definition fallbackStep :: "TreeNodeData list \<Rightarrow> TreeNodeData \<Rightarrow> depths \<Rightarrow> depths" where
  "fallbackStep treeNodes node nodeDepths =
     (if map_of nodeDepths (tn_id node) = None
      then assignDepth treeNodes (tn_id node) 0 nodeDepths
      else nodeDepths)"

text \<open>
  The two loops that fill \<^verbatim>\<open>nodeDepths\<close>: every root at depth 0, then every node that has
  no depth yet, at depth 0 too.
\<close>

definition computeDepths :: "TreeNodeData list \<Rightarrow> depths" where
  "computeDepths treeNodes =
     (let nodeDepths1 = fold (\<lambda>rootId nodeDepths. assignDepth treeNodes rootId 0 nodeDepths)
                          (rootIds treeNodes) []
      in fold (fallbackStep treeNodes) treeNodes nodeDepths1)"

section \<open>The layout engine\<close>

text \<open>
  What the layout keeps of a node of the diagram library: its id, its position
  (the top-left corner of its box), and in \<^verbatim>\<open>data\<close> the label, the children and the border
  colour. An edge keeps its id, its two ends, the source handle and its stroke colour;
  the routing data that every edge shares is held once, in the layout.
\<close>

record FlowNode =
  fn_id :: string
  fn_position :: "jsnum \<times> jsnum"
  fn_label :: string
  fn_children :: "string list"
  fn_borderColor :: string

record FlowEdge =
  fe_id :: string
  fe_source :: string
  fe_sourceHandle :: string
  fe_target :: string
  fe_stroke :: string

record NodeBox =
  nb_id :: string
  nb_x :: jsnum
  nb_y :: jsnum
  nb_width :: jsnum
  nb_height :: jsnum

record RoutingData =
  rd_nodes :: "NodeBox list"
  horizontalChannels :: "(string \<times> jsnum) list"
  verticalTrunks :: "(string \<times> (jsnum \<times> jsnum)) list"
  rd_nodeColors :: "string \<rightharpoonup> string"

record Layout =
  lo_nodes :: "FlowNode list"
  lo_edges :: "FlowEdge list"
  lo_routingData :: RoutingData

definition NODE_WIDTH :: rat where "NODE_WIDTH = 150"
definition NODE_HEIGHT :: rat where "NODE_HEIGHT = 40"
definition HORIZONTAL_SPACING :: rat where "HORIZONTAL_SPACING = 200"
definition VERTICAL_SPACING :: rat where "VERTICAL_SPACING = 120"

text \<open>\<^verbatim>\<open>treeNodes.every(n => n.position !== undefined)\<close>.\<close>

definition hasExplicitPositions :: "TreeNodeData list \<Rightarrow> bool" where
  "hasExplicitPositions treeNodes = list_all (\<lambda>n. tn_position n \<noteq> None) treeNodes"

text \<open>
  The explicit branch. It runs only when every position is there, which is what the
  assertion \<^verbatim>\<open>node.position!\<close> of the source relies on.
\<close>

definition explicitFlowNodes :: "TreeNodeData list \<Rightarrow> FlowNode list" where
  "explicitFlowNodes treeNodes =
     map (\<lambda>node. \<lparr>fn_id = tn_id node, fn_position = the (tn_position node),
                   fn_label = tn_label node, fn_children = tn_children node,
                   fn_borderColor = colorOf treeNodes (tn_id node)\<rparr>) treeNodes"

text \<open>
  \<^verbatim>\<open>nodeLevels.get(depth) || []\<close>: the ids of one depth, in the order in which
  \<^verbatim>\<open>nodeDepths\<close> holds them.
\<close>

definition levelIds :: "depths \<Rightarrow> nat \<Rightarrow> string list" where
  "levelIds nodeDepths depth = map fst (filter (\<lambda>(nodeId, d). d = depth) nodeDepths)"

text \<open>One round of the loop over the depths: the nodes of one layer.\<close>

definition layerFlowNodes :: "TreeNodeData list \<Rightarrow> depths \<Rightarrow> nat \<Rightarrow> FlowNode list" where
  "layerFlowNodes treeNodes nodeDepths depth =
     (let nodesAtLevel = levelIds nodeDepths depth;
          levelWidth = of_nat (length nodesAtLevel) * HORIZONTAL_SPACING;
          startX = - levelWidth / 2 + HORIZONTAL_SPACING / 2
      in List.map_filter
           (\<lambda>(index, nodeId).
              case nodeMap treeNodes nodeId of
                None \<Rightarrow> None
              | Some node \<Rightarrow>
                  Some \<lparr>fn_id = nodeId,
                        fn_position = (Fin (startX + of_nat index * HORIZONTAL_SPACING),
                                       Fin (of_nat depth * VERTICAL_SPACING)),
                        fn_label = tn_label node, fn_children = tn_children node,
                        fn_borderColor = colorOf treeNodes nodeId\<rparr>)
           (enumerate 0 nodesAtLevel))"

text \<open>
  The computed branch: the layers from depth 0 to the largest depth. \<^verbatim>\<open>Math.max\<close> of no
  depth at all is minus infinity, and then the loop does not run.
\<close>

definition autoFlowNodes :: "TreeNodeData list \<Rightarrow> FlowNode list" where
  "autoFlowNodes treeNodes =
     (let nodeDepths = computeDepths treeNodes
      in if nodeDepths = [] then []
         else concat (map (layerFlowNodes treeNodes nodeDepths)
                        [0 ..< Suc (Max (set (map snd nodeDepths)))]))"

definition flowNodes :: "TreeNodeData list \<Rightarrow> FlowNode list" where
  "flowNodes treeNodes =
     (if hasExplicitPositions treeNodes then explicitFlowNodes treeNodes
      else autoFlowNodes treeNodes)"

section \<open>The route planner\<close>

definition nodeBoxes :: "FlowNode list \<Rightarrow> NodeBox list" where
  "nodeBoxes ns =
     map (\<lambda>n. \<lparr>nb_id = fn_id n, nb_x = fst (fn_position n), nb_y = snd (fn_position n),
                nb_width = Fin NODE_WIDTH, nb_height = Fin NODE_HEIGHT\<rparr>) ns"

text \<open>The position lookup: the x of the centre of the box and the y of its top.\<close>

definition nodePositions :: "FlowNode list \<Rightarrow> (string \<rightharpoonup> jsnum \<times> jsnum)" where
  "nodePositions ns =
     fold (\<lambda>n m. m(fn_id n \<mapsto> (jadd (fst (fn_position n)) (Fin (NODE_WIDTH / 2)),
                                  snd (fn_position n))))
       ns Map.empty"

text \<open>The key of a pair of layers: the two rounded values with a hyphen between them.\<close>

definition layerKey :: "jsnum \<Rightarrow> jsnum \<Rightarrow> string" where
  "layerKey sourceY targetY = roundedString sourceY @ ''-'' @ roundedString targetY"

text \<open>
  The idiom \<^verbatim>\<open>if (!m.has(k)) m.set(k, []); m.get(k).push(e)\<close> on a \<^verbatim>\<open>Map\<close> of arrays.
\<close>

definition pushTo :: "'k \<Rightarrow> 'e \<Rightarrow> ('k \<times> 'e list) list \<Rightarrow> ('k \<times> 'e list) list" where
  "pushTo k e groups =
     AList.update k ((case map_of groups k of None \<Rightarrow> [] | Some es \<Rightarrow> es) @ [e]) groups"

text \<open>
  \<^verbatim>\<open>edgesByLayers\<close>: the two nested loops over the nodes and their children; a source or
  a target without a position is skipped. An entry is (sourceX, targetX, targetId).
\<close>

definition edgesByLayers ::
  "TreeNodeData list \<Rightarrow> (string \<rightharpoonup> jsnum \<times> jsnum) \<Rightarrow> (string \<times> (jsnum \<times> jsnum \<times> string) list) list" where
  "edgesByLayers treeNodes positions =
     fold (\<lambda>node groups.
             case positions (tn_id node) of
               None \<Rightarrow> groups
             | Some sourcePos \<Rightarrow>
                 fold (\<lambda>childId groups.
                         case positions childId of
                           None \<Rightarrow> groups
                         | Some targetPos \<Rightarrow>
                             pushTo (layerKey (jadd (snd sourcePos) (Fin NODE_HEIGHT)) (snd targetPos))
                               (fst sourcePos, fst targetPos, childId) groups)
                   (tn_children node) groups)
       treeNodes []"

text \<open>\<^verbatim>\<open>parseInt\<close> of a name that destructuring may have left \<^verbatim>\<open>undefined\<close>.\<close>

definition parseIntOpt :: "string option \<Rightarrow> jsnum" where
  "parseIntOpt s = (case s of None \<Rightarrow> NaN | Some t \<Rightarrow> parseInt t)"

text \<open>
  The channel of a key: the key is split at the hyphens again, its first two pieces are
  read as integers, and the channel is their midpoint.
\<close>

definition channelOfKey :: "string \<Rightarrow> jsnum" where
  "channelOfKey key =
     (let pieces = split CHR ''-'' key;
          sourceY = parseIntOpt (nth_opt pieces 0);
          targetY = parseIntOpt (nth_opt pieces 1)
      in jhalf (jadd sourceY targetY))"

definition channelsOf :: "(string \<times> 'e) list \<Rightarrow> (string \<times> jsnum) list" where
  "channelsOf groups = fold (\<lambda>(key, es) channels. AList.update key (channelOfKey key) channels) groups []"

text \<open>
  \<^verbatim>\<open>edgesByTarget\<close>: again the two nested loops; only a source without a position is
  skipped. An entry is (sourceX, sourceY), with sourceY the bottom of the source.
\<close>

definition edgesByTarget ::
  "TreeNodeData list \<Rightarrow> (string \<rightharpoonup> jsnum \<times> jsnum) \<Rightarrow> (string \<times> (jsnum \<times> jsnum) list) list" where
  "edgesByTarget treeNodes positions =
     fold (\<lambda>node groups.
             case positions (tn_id node) of
               None \<Rightarrow> groups
             | Some sourcePos \<Rightarrow>
                 fold (\<lambda>childId groups.
                         pushTo childId (fst sourcePos, jadd (snd sourcePos) (Fin NODE_HEIGHT)) groups)
                   (tn_children node) groups)
       treeNodes []"

text \<open>The trunks: one for each target with more than one source and with a position.\<close>

definition trunksOf ::
  "(string \<times> (jsnum \<times> jsnum) list) list \<Rightarrow> (string \<rightharpoonup> jsnum \<times> jsnum) \<Rightarrow> (string \<times> (jsnum \<times> jsnum)) list" where
  "trunksOf groups positions =
     fold (\<lambda>(targetId, sources) trunks.
             if length sources > 1 then
               (case positions targetId of
                  None \<Rightarrow> trunks
                | Some targetPos \<Rightarrow>
                    AList.update targetId
                      (fst targetPos, jhalf (jadd (mathMin (map snd sources)) (snd targetPos)))
                      trunks)
             else trunks)
       groups []"

definition flowEdges :: "TreeNodeData list \<Rightarrow> FlowEdge list" where
  "flowEdges treeNodes =
     concat (map (\<lambda>node.
                    map (\<lambda>childId.
                           \<lparr>fe_id = tn_id node @ ''-'' @ childId, fe_source = tn_id node,
                            fe_sourceHandle = ''source-'' @ childId, fe_target = childId,
                            fe_stroke = colorOf treeNodes childId\<rparr>)
                      (tn_children node))
              treeNodes)"

definition calculateTreeLayout :: "TreeNodeData list \<Rightarrow> Layout" where
  "calculateTreeLayout treeNodes =
     (let ns = flowNodes treeNodes;
          positions = nodePositions ns;
          routing = \<lparr>rd_nodes = nodeBoxes ns,
                     horizontalChannels = channelsOf (edgesByLayers treeNodes positions),
                     verticalTrunks = trunksOf (edgesByTarget treeNodes positions) positions,
                     rd_nodeColors = nodeColors treeNodes\<rparr>
      in \<lparr>lo_nodes = ns, lo_edges = flowEdges treeNodes, lo_routingData = routing\<rparr>)"

text \<open>
  \<^verbatim>\<open>calculateMergedPath\<close>. The path text \<^verbatim>\<open>M x y L x y ...\<close> is kept as the list of its
  points.
\<close>

definition calculateMergedPath ::
  "jsnum \<Rightarrow> jsnum \<Rightarrow> jsnum \<Rightarrow> jsnum \<Rightarrow> string \<Rightarrow> RoutingData \<Rightarrow> (jsnum \<times> jsnum) list" where
  "calculateMergedPath startX startY endX endY targetId routing =
     (let channelY = map_of (horizontalChannels routing) (layerKey startY endY);
          verticalTrunk = map_of (verticalTrunks routing) targetId
      in if jless (jabs (jsub startX endX)) (Fin 1) then [(startX, startY), (endX, endY)]
         else
           (let horizontalY = (case channelY of Some c \<Rightarrow> c | None \<Rightarrow> jhalf (jadd startY endY));
                standard = [(startX, startY), (startX, horizontalY), (endX, horizontalY), (endX, endY)]
            in case verticalTrunk of
                 None \<Rightarrow> standard
               | Some trunk \<Rightarrow>
                   if jless (jabs (jsub (fst trunk) endX)) (Fin 1)
                   then [(startX, startY), (startX, horizontalY), (fst trunk, horizontalY),
                         (fst trunk, endY)]
                   else standard))"

section \<open>Serialization\<close>

definition serializeToCSV :: "FlowNode list \<Rightarrow> FlowEdge list \<Rightarrow> string" where
  "serializeToCSV ns es =
     (let childrenMap = fold (\<lambda>edge m. pushTo (fe_source edge) (fe_target edge) m) es []
      in join [CHR 0x0A]
           (map (\<lambda>node.
                   fn_id node @ '','' @ fn_label node @ '',''
                   @ (case map_of childrenMap (fn_id node) of
                        Some cs \<Rightarrow> join '';'' cs
                      | None \<Rightarrow> [])
                   @ '','' @ roundedString (fst (fn_position node)) @ '';''
                   @ roundedString (snd (fn_position node)))
              ns))"

section \<open>The snap assistant\<close>

definition SNAP_THRESHOLD :: rat where "SNAP_THRESHOLD = 15"

text \<open>
  A change that the diagram library reports: a position change, with the id of the
  dragged node and a position that may be missing, or a change of another type.
\<close>

datatype NodeChange = PositionChange string "(jsnum \<times> jsnum) option" | OtherChange string

text \<open>The body of the loop over the current nodes, on the pair \<^verbatim>\<open>{ x, y }\<close>.\<close>

definition snapStep :: "string \<Rightarrow> FlowNode \<Rightarrow> jsnum \<times> jsnum \<Rightarrow> jsnum \<times> jsnum" where
  "snapStep draggedNodeId node xy =
     (if fn_id node = draggedNodeId then xy
      else
        (let x = (if jless (jabs (jsub (fst (fn_position node)) (fst xy))) (Fin SNAP_THRESHOLD)
                  then fst (fn_position node) else fst xy);
             y = (if jless (jabs (jsub (snd (fn_position node)) (snd xy))) (Fin SNAP_THRESHOLD)
                  then snd (fn_position node) else snd xy)
         in (x, y)))"

definition snapPosition :: "FlowNode list \<Rightarrow> string \<Rightarrow> jsnum \<times> jsnum \<Rightarrow> jsnum \<times> jsnum" where
  "snapPosition ns draggedNodeId xy = fold (snapStep draggedNodeId) ns xy"

text \<open>
  \<^verbatim>\<open>handleNodesChange\<close> up to its call of \<^verbatim>\<open>onNodesChange\<close>: the changes it hands on.
\<close>

definition snapChange :: "FlowNode list \<Rightarrow> NodeChange \<Rightarrow> NodeChange" where
  "snapChange ns change =
     (case change of
        PositionChange draggedNodeId (Some xy) \<Rightarrow>
          PositionChange draggedNodeId (Some (snapPosition ns draggedNodeId xy))
      | _ \<Rightarrow> change)"

definition handleNodesChange :: "FlowNode list \<Rightarrow> NodeChange list \<Rightarrow> NodeChange list" where
  "handleNodesChange ns changes = map (snapChange ns) changes"

section \<open>Properties of the record codec\<close>

lemma parseLine_in_parseCSV:
  "line \<in> set (split (CHR 0x0A) (trim content)) \<Longrightarrow> parseLine line = Some node \<Longrightarrow>
     node \<in> set (parseCSV content)"
  by (force simp: parseCSV_def List.map_filter_def)

text \<open>
  Claim C7, as the code has it. A line of at least two fields whose fourth field has a
  coordinate that \<^verbatim>\<open>parseFloat\<close> reads as not-a-number still gives a node, with its id and
  label, and that node has no position. The guard of the source is \<^verbatim>\<open>!isNaN(x) && !isNaN(y)\<close>.
\<close>

theorem position_absent_when_not_a_number:
  assumes "line \<in> set (split (CHR 0x0A) (trim content))"
    and "2 \<le> length (split CHR '','' line)"
    and "nth_opt (split CHR '','' line) 3 = Some field"
    and "isNaN (parseFloatOpt (nth_opt (split CHR '';'' (trim field)) 0))
       \<or> isNaN (parseFloatOpt (nth_opt (split CHR '';'' (trim field)) 1))"
  shows "\<exists>node \<in> set (parseCSV content).
           parseLine line = Some node
         \<and> tn_id node = trim (split CHR '','' line ! 0)
         \<and> tn_label node = trim (split CHR '','' line ! 1)
         \<and> tn_position node = None"
proof -
  from assms(2-4) obtain node where n: "parseLine line = Some node"
      "tn_id node = trim (split CHR '','' line ! 0)"
      "tn_label node = trim (split CHR '','' line ! 1)"
      "tn_position node = None"
    by (auto simp add: parseLine_def Let_def)
  with parseLine_in_parseCSV[OF assms(1) n(1)] show ?thesis by blast
qed

theorem position_absent_when_not_a_number_witness:
  "\<exists>node \<in> set (parseCSV ''0,Root,1,12;abc'').
           parseLine ''0,Root,1,12;abc'' = Some node
         \<and> tn_id node = ''0''
         \<and> tn_label node = ''Root''
         \<and> tn_position node = None"
proof -
  have h1: "''0,Root,1,12;abc'' \<in> set (split (CHR 0x0A) (trim ''0,Root,1,12;abc''))"
    by code_simp
  have h2: "2 \<le> length (split CHR '','' ''0,Root,1,12;abc'')"
    by code_simp
  have h3: "nth_opt (split CHR '','' ''0,Root,1,12;abc'') 3 = Some ''12;abc''"
    by code_simp
  have h4: "isNaN (parseFloatOpt (nth_opt (split CHR '';'' (trim ''12;abc'')) 0))
       \<or> isNaN (parseFloatOpt (nth_opt (split CHR '';'' (trim ''12;abc'')) 1))"
    by code_simp
  have e1: "trim (split CHR '','' ''0,Root,1,12;abc'' ! 0) = ''0''"
    by code_simp
  have e2: "trim (split CHR '','' ''0,Root,1,12;abc'' ! 1) = ''Root''"
    by code_simp
  show ?thesis
    using position_absent_when_not_a_number[OF h1 h2 h3 h4] unfolding e1 e2 .
qed

text \<open>
  The claim as the specification words it asks for a finite number. The text
  \<^verbatim>\<open>Infinity\<close> does not parse as a finite number, yet it passes the guard and the node keeps
  a position whose x is infinite.
\<close>

theorem infinite_coordinate_keeps_position:
  "\<not> isFinite (parseFloat ''Infinity'')
   \<and> parseCSV ''0,Root,1,Infinity;0'' =
       [\<lparr>tn_id = ''0'', tn_label = ''Root'', tn_children = [''1''],
         tn_position = Some (PInf, Fin 0)\<rparr>]"
  by code_simp

section \<open>Properties of depth assignment\<close>

text \<open>Three inputs: the example of the format, a cycle, and a node reached twice.\<close>

definition exampleInput :: "TreeNodeData list" where
  "exampleInput = parseCSV ''0,Root,1;2\<newline>1,Foo,3\<newline>2,Bar,3\<newline>3,Buzz,''"

definition cyclicInput :: "TreeNodeData list" where
  "cyclicInput = parseCSV ''0,A,1\<newline>1,B,0''"

definition crossEdgeInput :: "TreeNodeData list" where
  "crossEdgeInput = parseCSV ''0,R,1;2\<newline>1,A,3\<newline>2,B,1\<newline>3,C,''"

subsection \<open>Every node gets a depth\<close>

lemma assignDepth_keys:
  "fst ` set ds \<subseteq> fst ` set (assignDepth ns i d ds)"
  "fst ` set ds \<subseteq> fst ` set (assignDepthChildren ns cs d ds)"
proof (induction ns i d ds and ns cs d ds rule: assignDepth_assignDepthChildren.induct)
  case (1 treeNodes nodeId depth nodeDepths)
  show ?case
  proof (cases "map_of nodeDepths nodeId")
    case None
    note unvisited = this
    show ?thesis
    proof (cases "nodeMap treeNodes nodeId")
      case None
      with unvisited show ?thesis
        by (simp add: assignDepth.simps AList.dom_update) blast
    next
      case (Some node)
      with unvisited 1[OF unvisited Some] show ?thesis
        by (simp add: assignDepth.simps AList.dom_update)
    qed
  next
    case (Some old)
    then show ?thesis
      by (simp add: assignDepth.simps AList.dom_update) blast
  qed
next
  case (2 treeNodes depth nodeDepths)
  then show ?case by simp
next
  case (3 treeNodes childId rest depth nodeDepths)
  then show ?case by simp
qed

lemma assignDepth_self_key: "i \<in> fst ` set (assignDepth ns i d ds)"
proof (cases "map_of ds i")
  case None
  have "i \<in> fst ` set (AList.update i d ds)" by (simp add: AList.dom_update)
  with None show ?thesis
    using assignDepth_keys(2)[of "AList.update i d ds" ns _ "d + 1"]
    by (auto simp add: assignDepth.simps split: option.splits)
next
  case (Some old)
  then have "i \<in> fst ` set ds" by (force dest: map_of_SomeD)
  with Some show ?thesis by (simp add: assignDepth.simps AList.dom_update)
qed

lemma fallbackStep_keys: "fst ` set ds \<subseteq> fst ` set (fallbackStep ns n ds)"
  using assignDepth_keys(1) by (simp add: fallbackStep_def)

lemma fallbackStep_self: "tn_id n \<in> fst ` set (fallbackStep ns n ds)"
  using assignDepth_self_key by (auto simp add: fallbackStep_def map_of_eq_None_iff)

lemma fold_fallback_keys: "fst ` set ds \<subseteq> fst ` set (fold (fallbackStep ns) ms ds)"
proof (induction ms arbitrary: ds)
  case Nil
  then show ?case by simp
next
  case (Cons m ms)
  from Cons[of "fallbackStep ns m ds"] fallbackStep_keys[of ds ns m] show ?case by auto
qed

lemma fold_fallback_covers: "n \<in> set ms \<Longrightarrow> tn_id n \<in> fst ` set (fold (fallbackStep ns) ms ds)"
proof (induction ms arbitrary: ds)
  case Nil
  then show ?case by simp
next
  case (Cons m ms)
  show ?case
  proof (cases "n = m")
    case True
    with fallbackStep_self[of m ns ds] fold_fallback_keys[of "fallbackStep ns m ds" ns ms]
    show ?thesis by auto
  next
    case False
    with Cons show ?thesis by simp
  qed
qed

text \<open>
  Claim C9. Depth assignment is a total function (its termination is proved above, for
  every input, cyclic or not), and its result holds a depth, a natural number, for the id
  of every parsed node. A visit to an id that already has a depth only compares and
  possibly raises that depth: the children are not visited again.
\<close>

theorem every_node_gets_depth:
  "(\<forall>n \<in> set treeNodes. \<exists>d. map_of (computeDepths treeNodes) (tn_id n) = Some d)
   \<and> (\<forall>nodeId depth nodeDepths old. map_of nodeDepths nodeId = Some old \<longrightarrow>
         assignDepth treeNodes nodeId depth nodeDepths =
           (if old < depth then AList.update nodeId depth nodeDepths else nodeDepths))"
proof (intro conjI ballI allI impI)
  fix n assume "n \<in> set treeNodes"
  then have "tn_id n \<in> fst ` set (computeDepths treeNodes)"
    unfolding computeDepths_def Let_def by (rule fold_fallback_covers)
  then show "\<exists>d. map_of (computeDepths treeNodes) (tn_id n) = Some d"
    by (metis map_of_eq_None_iff not_Some_eq)
next
  fix nodeId :: string and depth :: nat and nodeDepths :: depths and old :: nat
  assume "map_of nodeDepths nodeId = Some old"
  then show "assignDepth treeNodes nodeId depth nodeDepths =
           (if old < depth then AList.update nodeId depth nodeDepths else nodeDepths)"
    by (simp add: assignDepth.simps)
qed

lemma cyclicInput_nodes: "cyclicInput = [\<lparr>tn_id = ''0'', tn_label = ''A'', tn_children = [''1''], tn_position = None\<rparr>,
   \<lparr>tn_id = ''1'', tn_label = ''B'', tn_children = [''0''], tn_position = None\<rparr>]"
  by code_simp

lemma exampleInput_nodes:
  "exampleInput =
     [\<lparr>tn_id = ''0'', tn_label = ''Root'', tn_children = [''1'', ''2''], tn_position = None\<rparr>,
      \<lparr>tn_id = ''1'', tn_label = ''Foo'', tn_children = [''3''], tn_position = None\<rparr>,
      \<lparr>tn_id = ''2'', tn_label = ''Bar'', tn_children = [''3''], tn_position = None\<rparr>,
      \<lparr>tn_id = ''3'', tn_label = ''Buzz'', tn_children = [], tn_position = None\<rparr>]"
  by code_simp

lemma exampleInput_depths:
  "computeDepths exampleInput = [(''0'', 0), (''1'', 1), (''3'', 2), (''2'', 1)]
   \<and> rootIds exampleInput = [''0'']"
  by code_simp

theorem every_node_gets_depth_witness:
  "(\<exists>d. map_of (computeDepths cyclicInput) ''0'' = Some d)
   \<and> (\<exists>d. map_of (computeDepths cyclicInput) ''1'' = Some d)
   \<and> assignDepth cyclicInput ''0'' 2 [(''0'', 0), (''1'', 1)] = [(''0'', 2), (''1'', 1)]"
proof -
  have m: "set cyclicInput = {\<lparr>tn_id = ''0'', tn_label = ''A'', tn_children = [''1''], tn_position = None\<rparr>,
      \<lparr>tn_id = ''1'', tn_label = ''B'', tn_children = [''0''], tn_position = None\<rparr>}"
    by (simp add: cyclicInput_nodes)
  have l: "map_of [(''0'', 0::nat), (''1'', 1)] ''0'' = Some 0" by simp
  from every_node_gets_depth[of cyclicInput] have
    a: "\<forall>n\<in>set cyclicInput. \<exists>d. map_of (computeDepths cyclicInput) (tn_id n) = Some d"
    and b: "\<And>nodeId depth nodeDepths old. map_of nodeDepths nodeId = Some old \<Longrightarrow>
         assignDepth cyclicInput nodeId depth nodeDepths =
           (if old < depth then AList.update nodeId depth nodeDepths else nodeDepths)"
    by blast+
  from a have "\<exists>d. map_of (computeDepths cyclicInput) ''0'' = Some d"
      "\<exists>d. map_of (computeDepths cyclicInput) ''1'' = Some d"
    unfolding m by auto
  moreover from b[OF l, of 2] have "assignDepth cyclicInput ''0'' 2 [(''0'', 0), (''1'', 1)] = [(''0'', 2), (''1'', 1)]"
    by simp
  ultimately show ?thesis by blast
qed

subsection \<open>Depths of children\<close>

text \<open>
  One more input: the graph of \<open>crossEdgeInput\<close> with the children of the root in the other
  order, so that node 1 is reached along the longer path first.
\<close>

definition deepFirstInput :: "TreeNodeData list" where
  "deepFirstInput = parseCSV ''0,R,2;1\<newline>1,A,3\<newline>2,B,1\<newline>3,C,''"

lemma nodeMap_fold_in_set:
  "fold (\<lambda>n m. m(tn_id n \<mapsto> n)) ns m0 i = Some node \<Longrightarrow> m0 i = Some node \<or> (node \<in> set ns \<and> tn_id node = i)"
proof (induction ns arbitrary: m0)
  case Nil
  then show ?case by simp
next
  case (Cons n ns)
  from Cons.prems have "fold (\<lambda>n m. m(tn_id n \<mapsto> n)) ns (m0(tn_id n \<mapsto> n)) i = Some node"
    by (simp only: fold_simps)
  from Cons.IH[OF this] show ?case
    by (auto split: if_splits)
qed

lemma nodeMap_in_set: "nodeMap ns i = Some node \<Longrightarrow> node \<in> set ns \<and> tn_id node = i"
  using nodeMap_fold_in_set[of ns Map.empty i node] by (simp add: nodeMap_def)

text \<open>
  The calls of \<^verbatim>\<open>assignDepth\<close>, in the order in which the traversal makes them. \<open>visits\<close>
  has the recursion of \<open>assignDepth\<close> and lists, where \<open>assignDepth\<close> returns the map, the
  call itself and the calls that it makes; \<open>visitsChildren\<close> does so for the loop over the
  children, with the map threaded through the calls by \<open>assignDepth\<close> itself.
\<close>

function visits :: "TreeNodeData list \<Rightarrow> string \<Rightarrow> nat \<Rightarrow> depths \<Rightarrow> (string \<times> nat) list"
  and visitsChildren :: "TreeNodeData list \<Rightarrow> string list \<Rightarrow> nat \<Rightarrow> depths \<Rightarrow> (string \<times> nat) list"
where
  "visits treeNodes nodeId depth nodeDepths =
     (nodeId, depth) #
     (case map_of nodeDepths nodeId of
        Some old \<Rightarrow> []
      | None \<Rightarrow>
          (case nodeMap treeNodes nodeId of
             Some node \<Rightarrow>
               visitsChildren treeNodes (tn_children node) (depth + 1)
                 (AList.update nodeId depth nodeDepths)
           | None \<Rightarrow> []))"
| "visitsChildren treeNodes [] depth nodeDepths = []"
| "visitsChildren treeNodes (childId # rest) depth nodeDepths =
     visits treeNodes childId depth nodeDepths
     @ visitsChildren treeNodes rest depth (assignDepth treeNodes childId depth nodeDepths)"
  by pat_completeness auto
termination
proof (relation "inv_image (less_than <*lex*> less_than)
    (\<lambda>x. case x of
       Inl (ns, i, d, ds) \<Rightarrow> (card (dom (nodeMap ns) - fst ` set ds), 0)
     | Inr (ns, cs, d, ds) \<Rightarrow> (card (dom (nodeMap ns) - fst ` set ds), Suc (length cs)))",
    goal_cases)
  case 1
  then show ?case by (simp add: wf_lex_prod)
next
  case (2 treeNodes nodeId depth nodeDepths node)
  have fin: "finite (dom (nodeMap treeNodes))" by (simp add: dom_nodeMap)
  from 2 have a: "nodeId \<in> dom (nodeMap treeNodes)" by auto
  from 2 have b: "nodeId \<notin> fst ` set nodeDepths" by (simp add: map_of_eq_None_iff)
  have "dom (nodeMap treeNodes) - insert nodeId (fst ` set nodeDepths)
      \<subset> dom (nodeMap treeNodes) - fst ` set nodeDepths"
    using a b by auto
  then have "card (dom (nodeMap treeNodes) - insert nodeId (fst ` set nodeDepths))
      < card (dom (nodeMap treeNodes) - fst ` set nodeDepths)"
    using fin by (intro psubset_card_mono) auto
  then show ?case by (simp add: AList.dom_update)
next
  case (3 treeNodes childId rest depth nodeDepths)
  then show ?case by simp
next
  case (4 treeNodes childId rest depth nodeDepths)
  have fin: "finite (dom (nodeMap treeNodes))" by (simp add: dom_nodeMap)
  have "dom (nodeMap treeNodes) - fst ` set (assignDepth treeNodes childId depth nodeDepths)
      \<subseteq> dom (nodeMap treeNodes) - fst ` set nodeDepths"
    using assignDepth_keys(1)[of nodeDepths treeNodes childId depth] by blast
  then have "card (dom (nodeMap treeNodes) - fst ` set (assignDepth treeNodes childId depth nodeDepths))
      \<le> card (dom (nodeMap treeNodes) - fst ` set nodeDepths)"
    using fin by (intro card_mono) auto
  then show ?case by auto
qed

declare visits.simps [simp del]

text \<open>
  The calls of the second loop, which calls \<^verbatim>\<open>assignDepth\<close> only for a node without a depth.
\<close>

fun fallbackVisits :: "TreeNodeData list \<Rightarrow> TreeNodeData list \<Rightarrow> depths \<Rightarrow> (string \<times> nat) list" where
  "fallbackVisits treeNodes [] nodeDepths = []"
| "fallbackVisits treeNodes (node # rest) nodeDepths =
     (if map_of nodeDepths (tn_id node) = None then visits treeNodes (tn_id node) 0 nodeDepths else [])
     @ fallbackVisits treeNodes rest (fallbackStep treeNodes node nodeDepths)"

text \<open>
  All the calls of depth assignment: those of the loop over the roots, which has the form
  of the loop over children at depth 0, then those of the second loop.
\<close>

definition allVisits :: "TreeNodeData list \<Rightarrow> (string \<times> nat) list" where
  "allVisits treeNodes =
     visitsChildren treeNodes (rootIds treeNodes) 0 []
     @ fallbackVisits treeNodes treeNodes
         (fold (\<lambda>rootId nodeDepths. assignDepth treeNodes rootId 0 nodeDepths) (rootIds treeNodes) [])"

text \<open>The depths at which the traversal reaches one id, in order.\<close>

definition visitDepths :: "TreeNodeData list \<Rightarrow> string \<Rightarrow> nat list" where
  "visitDepths treeNodes nodeId = map snd (filter (\<lambda>(i, d). i = nodeId) (allVisits treeNodes))"

text \<open>
  The depth that one id holds after a run of visits: the greatest depth among the depth
  that it had and the depths of its visits.
\<close>

fun seenMax :: "string \<Rightarrow> (string \<times> nat) list \<Rightarrow> nat option \<Rightarrow> nat option" where
  "seenMax x [] a = a"
| "seenMax x ((i, d) # t) a =
     seenMax x t (if i = x then Some (case a of None \<Rightarrow> d | Some b \<Rightarrow> max b d) else a)"

definition depthsOf :: "string \<Rightarrow> (string \<times> nat) list \<Rightarrow> nat list" where
  "depthsOf x t = map snd (filter (\<lambda>(i, d). i = x) t)"

lemma seenMax_append: "seenMax x (s @ t) a = seenMax x t (seenMax x s a)"
  by (induction x s a rule: seenMax.induct) simp_all

lemma seenMax_absent: "x \<notin> fst ` set t \<Longrightarrow> seenMax x t a = a"
  by (induction x t a rule: seenMax.induct) auto

lemma Max_insert_max:
  "finite S \<Longrightarrow> Max (insert (max a d) S) = Max (insert a (insert d S))"
  by (cases "S = {}") (simp_all add: max.assoc)

lemma seenMax_Some: "seenMax x t (Some a) = Some (Max (insert a (set (depthsOf x t))))"
proof (induction t arbitrary: a)
  case Nil
  then show ?case by (simp add: depthsOf_def)
next
  case (Cons p t)
  obtain i d where p: "p = (i, d)" by (cases p)
  show ?case
  proof (cases "i = x")
    case True
    have "seenMax x (p # t) (Some a) = Some (Max (insert (max a d) (set (depthsOf x t))))"
      using Cons[of "max a d"] p True by simp
    also have "\<dots> = Some (Max (insert a (insert d (set (depthsOf x t)))))"
      by (simp only: Max_insert_max[OF finite_set])
    also have "insert d (set (depthsOf x t)) = set (depthsOf x (p # t))"
      using p True by (simp add: depthsOf_def)
    finally show ?thesis .
  next
    case False
    with Cons[of a] p show ?thesis by (simp add: depthsOf_def)
  qed
qed

lemma seenMax_None:
  "seenMax x t None = (if depthsOf x t = [] then None else Some (Max (set (depthsOf x t))))"
proof (induction t)
  case Nil
  then show ?case by (simp add: depthsOf_def)
next
  case (Cons p t)
  obtain i d where p: "p = (i, d)" by (cases p)
  show ?case
  proof (cases "i = x")
    case True
    then have "seenMax x (p # t) None = Some (Max (insert d (set (depthsOf x t))))"
      using p by (simp add: seenMax_Some)
    moreover have "depthsOf x (p # t) = d # depthsOf x t"
      using p True by (simp add: depthsOf_def)
    ultimately show ?thesis by simp
  next
    case False
    with Cons p show ?thesis by (simp add: depthsOf_def)
  qed
qed

text \<open>Each call leaves every id at the greatest depth at which it has been reached.\<close>

lemma assignDepth_seen:
  "map_of (assignDepth ns i d ds) x = seenMax x (visits ns i d ds) (map_of ds x)"
  "map_of (assignDepthChildren ns cs d ds) x = seenMax x (visitsChildren ns cs d ds) (map_of ds x)"
proof (induction ns i d ds and ns cs d ds rule: assignDepth_assignDepthChildren.induct)
  case (1 treeNodes nodeId depth nodeDepths)
  show ?case
  proof (cases "map_of nodeDepths nodeId")
    case None
    note unvisited = this
    show ?thesis
    proof (cases "nodeMap treeNodes nodeId")
      case None
      with unvisited show ?thesis
        by (auto simp add: assignDepth.simps visits.simps AList.update_conv')
    next
      case (Some node)
      with unvisited 1[OF unvisited Some] show ?thesis
        by (auto simp add: assignDepth.simps visits.simps AList.update_conv')
    qed
  next
    case (Some old)
    then show ?thesis
      by (auto simp add: assignDepth.simps visits.simps AList.update_conv')
  qed
next
  case (2 treeNodes depth nodeDepths)
  then show ?case by simp
next
  case (3 treeNodes childId rest depth nodeDepths)
  then show ?case by (simp add: seenMax_append)
qed

lemma root_loop_is_children_loop:
  "fold (\<lambda>rootId nodeDepths. assignDepth ns rootId 0 nodeDepths) rs ds = assignDepthChildren ns rs 0 ds"
  by (induction rs arbitrary: ds) simp_all

lemma fallback_seen:
  "map_of (fold (fallbackStep ns) ms ds) x = seenMax x (fallbackVisits ns ms ds) (map_of ds x)"
proof (induction ms arbitrary: ds)
  case Nil
  then show ?case by simp
next
  case (Cons m ms)
  have "map_of (fallbackStep ns m ds) x
      = seenMax x (if map_of ds (tn_id m) = None then visits ns (tn_id m) 0 ds else []) (map_of ds x)"
    by (simp add: fallbackStep_def assignDepth_seen(1))
  with Cons[of "fallbackStep ns m ds"] show ?case
    by (simp add: seenMax_append)
qed

lemma computeDepths_seen: "map_of (computeDepths ns) x = seenMax x (allVisits ns) None"
  by (simp add: computeDepths_def allVisits_def Let_def fallback_seen seenMax_append
      root_loop_is_children_loop assignDepth_seen(2))

lemma depth_is_max_visit:
  "map_of (computeDepths ns) x =
     (if visitDepths ns x = [] then None else Some (Max (set (visitDepths ns x))))"
  using seenMax_None[of x "allVisits ns"]
  by (simp add: computeDepths_seen visitDepths_def depthsOf_def)

text \<open>The visits on the example of the format, on the cycle and on the two cross edges.\<close>

lemma example_visits:
  "allVisits exampleInput = [(''0'', 0), (''1'', 1), (''3'', 2), (''2'', 1), (''3'', 2)]
   \<and> allVisits cyclicInput = [(''0'', 0), (''1'', 1), (''0'', 2)]
   \<and> allVisits crossEdgeInput = [(''0'', 0), (''1'', 1), (''3'', 2), (''2'', 1), (''1'', 2)]
   \<and> allVisits deepFirstInput = [(''0'', 0), (''2'', 1), (''1'', 2), (''3'', 3), (''1'', 1)]"
  by code_simp

lemma visits_head: "(i, d) \<in> set (visits ns i d ds)"
  by (simp add: visits.simps)

lemma child_is_visited: "c \<in> set cs \<Longrightarrow> (c, d) \<in> set (visitsChildren ns cs d ds)"
proof (induction cs arbitrary: ds)
  case Nil
  then show ?case by simp
next
  case (Cons x xs)
  then show ?case using visits_head[of x d ns ds] by auto
qed

lemma unvisited_stays_absent:
  "map_of ds u = None \<Longrightarrow> map_of (visits ns i d ds) u = None \<Longrightarrow> map_of (assignDepth ns i d ds) u = None"
  by (simp add: assignDepth_seen(1) seenMax_absent map_of_eq_None_iff)

text \<open>
  The first visit of a parsed id expands it: each child of the record that the id map
  holds for it is visited one level below that visit.
\<close>

lemma first_visit_expands:
  assumes "nodeMap ns u = Some node" "v \<in> set (tn_children node)"
  shows "map_of ds u = None \<Longrightarrow> map_of (visits ns i d ds) u = Some d0 \<Longrightarrow>
           (v, d0 + 1) \<in> set (visits ns i d ds)"
    and "map_of ds u = None \<Longrightarrow> map_of (visitsChildren ns cs d ds) u = Some d0 \<Longrightarrow>
           (v, d0 + 1) \<in> set (visitsChildren ns cs d ds)"
  using assms
proof (induction ns i d ds and ns cs d ds rule: visits_visitsChildren.induct)
  case (1 treeNodes nodeId depth nodeDepths)
  show ?case
  proof (cases "nodeId = u")
    case True
    with 1(3) have "d0 = depth" by (simp add: visits.simps)
    moreover have "(v, depth + 1) \<in> set (visitsChildren treeNodes (tn_children node) (depth + 1)
                      (AList.update u depth nodeDepths))"
      using 1(5) by (rule child_is_visited)
    ultimately show ?thesis using True 1(2,4) by (simp add: visits.simps)
  next
    case False
    show ?thesis
    proof (cases "map_of nodeDepths nodeId")
      case None
      note unvisited = this
      show ?thesis
      proof (cases "nodeMap treeNodes nodeId")
        case None
        with unvisited False 1(3) show ?thesis by (simp add: visits.simps)
      next
        case (Some m)
        have a: "map_of (AList.update nodeId depth nodeDepths) u = None"
          using False 1(2) by (simp add: AList.update_conv')
        have b: "map_of (visitsChildren treeNodes (tn_children m) (depth + 1)
                   (AList.update nodeId depth nodeDepths)) u = Some d0"
          using 1(3) unvisited Some False by (simp add: visits.simps)
        from 1(1)[OF unvisited Some a b 1(4,5)] unvisited Some show ?thesis
          by (simp add: visits.simps)
      qed
    next
      case (Some old)
      with False 1(3) show ?thesis by (simp add: visits.simps)
    qed
  qed
next
  case (2 treeNodes depth nodeDepths)
  then show ?case by simp
next
  case (3 treeNodes childId rest depth nodeDepths)
  show ?case
  proof (cases "map_of (visits treeNodes childId depth nodeDepths) u")
    case None
    with 3(4) have b: "map_of (visitsChildren treeNodes rest depth
        (assignDepth treeNodes childId depth nodeDepths)) u = Some d0"
      by (simp add: map_add_def)
    have a: "map_of (assignDepth treeNodes childId depth nodeDepths) u = None"
      using 3(3) None by (rule unvisited_stays_absent)
    from 3(2)[OF a b 3(5,6)] show ?thesis by simp
  next
    case (Some e)
    with 3(4) have "e = d0" by (simp add: map_add_def)
    with 3(1)[OF 3(3) _ 3(5,6)] Some show ?thesis by simp
  qed
qed

lemma fallback_first_visit_expands:
  assumes "nodeMap ns u = Some node" "v \<in> set (tn_children node)"
  shows "map_of ds u = None \<Longrightarrow> map_of (fallbackVisits ns ms ds) u = Some d0 \<Longrightarrow>
           (v, d0 + 1) \<in> set (fallbackVisits ns ms ds)"
proof (induction ms arbitrary: ds)
  case Nil
  then show ?case by simp
next
  case (Cons m ms)
  let ?A = "if map_of ds (tn_id m) = None then visits ns (tn_id m) 0 ds else []"
  show ?case
  proof (cases "map_of ?A u")
    case None
    with Cons.prems(2) have b: "map_of (fallbackVisits ns ms (fallbackStep ns m ds)) u = Some d0"
      by (simp add: map_add_def)
    have a: "map_of (fallbackStep ns m ds) u = None"
    proof (cases "map_of ds (tn_id m)")
      case None
      with \<open>map_of ?A u = None\<close> have "map_of (visits ns (tn_id m) 0 ds) u = None" by simp
      from unvisited_stays_absent[OF Cons.prems(1) this] None show ?thesis
        by (simp add: fallbackStep_def)
    next
      case (Some old)
      with Cons.prems(1) show ?thesis by (simp add: fallbackStep_def)
    qed
    from Cons.IH[OF a b] show ?thesis by simp
  next
    case (Some e)
    with Cons.prems(2) have e: "e = d0" by (simp add: map_add_def)
    from Some have un: "map_of ds (tn_id m) = None" by (simp split: if_splits)
    with Some e have "map_of (visits ns (tn_id m) 0 ds) u = Some d0" by simp
    from first_visit_expands(1)[OF assms Cons.prems(1) this] un show ?thesis by simp
  qed
qed

lemma allVisits_first_visit_expands:
  assumes "nodeMap ns u = Some node" "v \<in> set (tn_children node)"
    and "map_of (allVisits ns) u = Some d0"
  shows "(v, d0 + 1) \<in> set (allVisits ns)"
proof -
  let ?R = "visitsChildren ns (rootIds ns) 0 []"
  let ?d1 = "fold (\<lambda>rootId nodeDepths. assignDepth ns rootId 0 nodeDepths) (rootIds ns) []"
  show ?thesis
  proof (cases "map_of ?R u")
    case None
    with assms(3) have b: "map_of (fallbackVisits ns ns ?d1) u = Some d0"
      by (simp add: allVisits_def map_add_def)
    have a: "map_of ?d1 u = None"
      using None
      by (simp add: root_loop_is_children_loop assignDepth_seen(2) seenMax_absent map_of_eq_None_iff)
    from fallback_first_visit_expands[OF assms(1,2) a b] show ?thesis
      by (simp add: allVisits_def)
  next
    case (Some e)
    with assms(3) have "e = d0" by (simp add: allVisits_def map_add_def)
    with Some first_visit_expands(2)[OF assms(1,2), of "[]" "rootIds ns" 0 d0] show ?thesis
      by (simp add: allVisits_def)
  qed
qed

lemma map_of_first_depth:
  "map_of t u = (if depthsOf u t = [] then None else Some (hd (depthsOf u t)))"
  by (induction t) (auto simp add: depthsOf_def)

lemma visit_depth_iff: "d \<in> set (visitDepths ns x) \<longleftrightarrow> (x, d) \<in> set (allVisits ns)"
  by (force simp add: visitDepths_def)

lemma parsed_node_is_visited:
  assumes "nodeMap ns u = Some node"
  shows "visitDepths ns u \<noteq> []"
proof -
  from nodeMap_in_set[OF assms] have "node \<in> set ns" "tn_id node = u" by simp_all
  then have "u \<in> fst ` set (computeDepths ns)"
    unfolding computeDepths_def Let_def using fold_fallback_covers by blast
  then have "map_of (computeDepths ns) u \<noteq> None" by (simp add: map_of_eq_None_iff)
  then show ?thesis by (simp add: depth_is_max_visit split: if_splits)
qed

text \<open>A visit below depth 0 is a visit of an id that some record names as a child.\<close>

lemma visit_origin:
  "(x, e) \<in> set (visits ns i d ds) \<Longrightarrow>
     (x = i \<and> e = d) \<or> x \<in> set (concat (map tn_children ns))"
  "(x, e) \<in> set (visitsChildren ns cs d ds) \<Longrightarrow>
     (x \<in> set cs \<and> e = d) \<or> x \<in> set (concat (map tn_children ns))"
proof (induction ns i d ds and ns cs d ds rule: visits_visitsChildren.induct)
  case (1 treeNodes nodeId depth nodeDepths)
  show ?case
  proof (cases "(x, e) = (nodeId, depth)")
    case True
    then show ?thesis by simp
  next
    case False
    show ?thesis
    proof (cases "map_of nodeDepths nodeId")
      case None
      note unvisited = this
      show ?thesis
      proof (cases "nodeMap treeNodes nodeId")
        case None
        with unvisited 1(2) False show ?thesis by (auto simp add: visits.simps)
      next
        case (Some node)
        with unvisited 1(2) False
        have m: "(x, e) \<in> set (visitsChildren treeNodes (tn_children node) (depth + 1)
                   (AList.update nodeId depth nodeDepths))"
          by (auto simp add: visits.simps)
        from nodeMap_in_set[OF Some]
        have "set (tn_children node) \<subseteq> set (concat (map tn_children treeNodes))"
          by auto
        with 1(1)[OF unvisited Some m] show ?thesis by auto
      qed
    next
      case (Some old)
      with 1(2) False show ?thesis by (auto simp add: visits.simps)
    qed
  qed
next
  case (2 treeNodes depth nodeDepths)
  then show ?case by simp
next
  case (3 treeNodes childId rest depth nodeDepths)
  from 3(3) consider "(x, e) \<in> set (visits treeNodes childId depth nodeDepths)"
    | "(x, e) \<in> set (visitsChildren treeNodes rest depth (assignDepth treeNodes childId depth nodeDepths))"
    by auto
  then show ?case
  proof cases
    case 1
    from 3(1)[OF this] show ?thesis by auto
  next
    case 2
    from 3(2)[OF this] show ?thesis by auto
  qed
qed

lemma fallback_visit_origin:
  "(x, e) \<in> set (fallbackVisits ns ms ds) \<Longrightarrow> e = 0 \<or> x \<in> set (concat (map tn_children ns))"
proof (induction ms arbitrary: ds)
  case Nil
  then show ?case by simp
next
  case (Cons m ms)
  from Cons.prems consider "(x, e) \<in> set (visits ns (tn_id m) 0 ds)"
    | "(x, e) \<in> set (fallbackVisits ns ms (fallbackStep ns m ds))"
    by (auto split: if_splits)
  then show ?case
  proof cases
    case 1
    from visit_origin(1)[OF this] show ?thesis by auto
  next
    case 2
    from Cons.IH[OF this] show ?thesis .
  qed
qed

lemma root_visited_at_zero:
  assumes "u \<in> set (rootIds ns)"
  shows "set (visitDepths ns u) = {0}"
proof -
  have nc: "u \<notin> set (concat (map tn_children ns))"
    using assms by (auto simp add: rootIds_def Let_def)
  have "(u, 0) \<in> set (allVisits ns)"
    using child_is_visited[OF assms, of 0 ns "[]"] by (simp add: allVisits_def)
  then have "0 \<in> set (visitDepths ns u)" by (simp add: visit_depth_iff)
  moreover have "e = 0" if "e \<in> set (visitDepths ns u)" for e
  proof -
    from that have "(u, e) \<in> set (allVisits ns)" by (simp add: visit_depth_iff)
    then consider "(u, e) \<in> set (visitsChildren ns (rootIds ns) 0 [])"
      | "(u, e) \<in> set (fallbackVisits ns ns
            (fold (\<lambda>rootId nodeDepths. assignDepth ns rootId 0 nodeDepths) (rootIds ns) []))"
      by (auto simp add: allVisits_def)
    then show ?thesis
    proof cases
      case 1
      from visit_origin(2)[OF this] nc show ?thesis by simp
    next
      case 2
      from fallback_visit_origin[OF this] nc show ?thesis by simp
    qed
  qed
  ultimately show ?thesis by auto
qed

lemma child_below_first_visit:
  assumes "nodeMap ns u = Some node" "v \<in> set (tn_children node)"
  shows "\<exists>dv. map_of (computeDepths ns) v = Some dv \<and> hd (visitDepths ns u) + 1 \<le> dv"
proof -
  have ne: "visitDepths ns u \<noteq> []" using assms(1) by (rule parsed_node_is_visited)
  then have "map_of (allVisits ns) u = Some (hd (visitDepths ns u))"
    by (simp add: map_of_first_depth visitDepths_def depthsOf_def)
  from allVisits_first_visit_expands[OF assms this]
  have m: "hd (visitDepths ns u) + 1 \<in> set (visitDepths ns v)" by (simp add: visit_depth_iff)
  then have "visitDepths ns v \<noteq> []" by auto
  then have "map_of (computeDepths ns) v = Some (Max (set (visitDepths ns v)))"
    by (simp add: depth_is_max_visit)
  moreover have "hd (visitDepths ns u) + 1 \<le> Max (set (visitDepths ns v))"
    using m by (intro Max_ge) simp_all
  ultimately show ?thesis by blast
qed

text \<open>
  Claim C2, as the code has it. Every id ends at the greatest depth at which the
  traversal reached it. For an edge from \<open>u\<close> to \<open>v\<close>, where \<open>v\<close> is a child of the record that
  the id map holds for \<open>u\<close>, and no visit of \<open>u\<close> is deeper than its first visit, \<open>v\<close> ends at
  least one level below \<open>u\<close>, also when \<open>v\<close> is reached along paths of different length.
  Every root is such a \<open>u\<close>: it is reached at depth 0 only.
\<close>

theorem depth_monotone_below_settled_node:
  "(\<forall>x. map_of (computeDepths treeNodes) x =
          (if visitDepths treeNodes x = [] then None
           else Some (Max (set (visitDepths treeNodes x)))))
   \<and> (nodeMap treeNodes u = Some node \<and> v \<in> set (tn_children node)
        \<and> (\<forall>d \<in> set (visitDepths treeNodes u). d \<le> hd (visitDepths treeNodes u))
      \<longrightarrow> (\<exists>du dv. map_of (computeDepths treeNodes) u = Some du
                   \<and> map_of (computeDepths treeNodes) v = Some dv
                   \<and> du + 1 \<le> dv))
   \<and> (u \<in> set (rootIds treeNodes) \<longrightarrow> set (visitDepths treeNodes u) = {0})"
proof (intro conjI allI impI)
  fix x
  show "map_of (computeDepths treeNodes) x =
          (if visitDepths treeNodes x = [] then None
           else Some (Max (set (visitDepths treeNodes x))))"
    by (rule depth_is_max_visit)
next
  assume a: "nodeMap treeNodes u = Some node \<and> v \<in> set (tn_children node)
        \<and> (\<forall>d \<in> set (visitDepths treeNodes u). d \<le> hd (visitDepths treeNodes u))"
  then have ne: "visitDepths treeNodes u \<noteq> []" using parsed_node_is_visited by blast
  then have "hd (visitDepths treeNodes u) \<in> set (visitDepths treeNodes u)" by simp
  with a have "Max (set (visitDepths treeNodes u)) = hd (visitDepths treeNodes u)"
    by (intro Max_eqI) simp_all
  with ne have du: "map_of (computeDepths treeNodes) u = Some (hd (visitDepths treeNodes u))"
    by (simp add: depth_is_max_visit)
  from a child_below_first_visit[of treeNodes u node v]
  obtain dv where "map_of (computeDepths treeNodes) v = Some dv" "hd (visitDepths treeNodes u) + 1 \<le> dv"
    by blast
  with du show "\<exists>du dv. map_of (computeDepths treeNodes) u = Some du
                   \<and> map_of (computeDepths treeNodes) v = Some dv
                   \<and> du + 1 \<le> dv"
    by blast
next
  assume "u \<in> set (rootIds treeNodes)"
  then show "set (visitDepths treeNodes u) = {0}" by (rule root_visited_at_zero)
qed

theorem depth_monotone_below_settled_node_witness:
  "visitDepths deepFirstInput ''1'' = [2, 1]
   \<and> map_of (computeDepths deepFirstInput) ''1'' = Some 2
   \<and> (\<exists>du dv. map_of (computeDepths deepFirstInput) ''1'' = Some du
             \<and> map_of (computeDepths deepFirstInput) ''3'' = Some dv
             \<and> du + 1 \<le> dv)
   \<and> set (visitDepths deepFirstInput ''0'') = {0}"
proof -
  have v1: "visitDepths deepFirstInput ''1'' = [2, 1]" by code_simp
  have h1: "nodeMap deepFirstInput ''1''
      = Some \<lparr>tn_id = ''1'', tn_label = ''A'', tn_children = [''3''], tn_position = None\<rparr>"
    by code_simp
  have h2: "''3'' \<in> set (tn_children \<lparr>tn_id = ''1'', tn_label = ''A'', tn_children = [''3''], tn_position = None\<rparr>)"
    by simp
  have h3: "\<forall>d \<in> set (visitDepths deepFirstInput ''1''). d \<le> hd (visitDepths deepFirstInput ''1'')"
    by (simp add: v1)
  have r: "''0'' \<in> set (rootIds deepFirstInput)" by code_simp
  from depth_monotone_below_settled_node[of deepFirstInput "''1''" _ "''3''"] h1 h2 h3
  have a: "map_of (computeDepths deepFirstInput) ''1'' =
          (if visitDepths deepFirstInput ''1'' = [] then None
           else Some (Max (set (visitDepths deepFirstInput ''1''))))"
    and b: "\<exists>du dv. map_of (computeDepths deepFirstInput) ''1'' = Some du
             \<and> map_of (computeDepths deepFirstInput) ''3'' = Some dv
             \<and> du + 1 \<le> dv"
    by blast+
  from a have a': "map_of (computeDepths deepFirstInput) ''1'' = Some 2" by (simp add: v1)
  from depth_monotone_below_settled_node[of deepFirstInput "''0''"] r
  have c: "set (visitDepths deepFirstInput ''0'') = {0}" by blast
  from v1 a' b c show ?thesis by blast
qed

text \<open>
  The claim as the specification words it, a child at least one level below its parent on
  every edge, fails on the cycle \<^verbatim>\<open>0,A,1 / 1,B,0\<close>: node 0 is reached again from node 1, at
  depth 2, and the guard that ends the recursion returns before its child 1, at depth 1,
  is visited again. No depths can satisfy the inequality on every edge of a cycle.
\<close>

theorem cycle_breaks_depth_monotonicity:
  "cyclicInput ! 0 = \<lparr>tn_id = ''0'', tn_label = ''A'', tn_children = [''1''], tn_position = None\<rparr>
   \<and> computeDepths cyclicInput = [(''0'', 2), (''1'', 1)]
   \<and> \<not> (the (map_of (computeDepths cyclicInput) ''0'') + 1 \<le> the (map_of (computeDepths cyclicInput) ''1''))"
  by code_simp

text \<open>
  Where a node is reached at a greater depth after its first visit, the theorem above
  says nothing about its children. On \<^verbatim>\<open>0 -> 1, 0 -> 2, 1 -> 3, 2 -> 1\<close> node 1 is reached at
  depth 1 and then at depth 2, and its child 3 stays at depth 2; with the children of
  node 0 in the other order the same graph gets the depths 0, 1, 2, 3.
\<close>

lemma cross_edge_depths:
  "crossEdgeInput ! 1 = \<lparr>tn_id = ''1'', tn_label = ''A'', tn_children = [''3''], tn_position = None\<rparr>
   \<and> visitDepths crossEdgeInput ''1'' = [1, 2]
   \<and> computeDepths crossEdgeInput = [(''0'', 0), (''1'', 2), (''3'', 2), (''2'', 1)]
   \<and> computeDepths deepFirstInput = [(''0'', 0), (''2'', 1), (''1'', 2), (''3'', 3)]"
  by code_simp

section \<open>Duplicate ids\<close>

lemma fold_untouched:
  "(\<And>x m. x \<in> set xs \<Longrightarrow> f x m k = m k) \<Longrightarrow> fold f xs m0 k = m0 k"
proof (induction xs arbitrary: m0)
  case Nil
  then show ?case by simp
next
  case (Cons x xs)
  have "fold f xs (f x m0) k = f x m0 k" using Cons by simp
  also have "\<dots> = m0 k" using Cons.prems by simp
  finally show ?case by (simp only: fold_simps)
qed

lemma nodeMap_fold_untouched:
  "k \<notin> tn_id ` set ns \<Longrightarrow> fold (\<lambda>n m. m(tn_id n \<mapsto> n)) ns m0 k = m0 k"
  by (rule fold_untouched) auto

lemma nodeMap_last_wins:
  assumes "tn_id n \<notin> tn_id ` set post"
  shows "nodeMap (pre @ n # post) (tn_id n) = Some n"
proof -
  have "nodeMap (pre @ n # post) (tn_id n)
      = fold (\<lambda>n m. m(tn_id n \<mapsto> n)) post ((fold (\<lambda>n m. m(tn_id n \<mapsto> n)) pre Map.empty)(tn_id n \<mapsto> n)) (tn_id n)"
    by (simp only: nodeMap_def fold_append fold_simps o_apply)
  also have "\<dots> = Some n"
    using nodeMap_fold_untouched[OF assms] by simp
  finally show ?thesis .
qed

lemma nodeColors_fold_untouched:
  "k \<notin> tn_id ` set (ns :: TreeNodeData list) \<Longrightarrow>
     fold (\<lambda>(index, node) m. m(tn_id node \<mapsto> COLORS ! (index mod length COLORS)))
       (enumerate j ns) m0 k = m0 k"
proof (rule fold_untouched)
  fix x :: "nat \<times> TreeNodeData" and m :: "string \<rightharpoonup> string"
  assume k: "k \<notin> tn_id ` set ns" and x: "x \<in> set (enumerate j ns)"
  obtain index node where xe: "x = (index, node)" by (cases x)
  with x have "node \<in> set ns" by (auto simp add: in_set_enumerate_eq)
  with k have "tn_id node \<noteq> k" by auto
  with xe show "(case x of (index, node) \<Rightarrow> \<lambda>m. m(tn_id node \<mapsto> COLORS ! (index mod length COLORS))) m k = m k"
    by simp
qed

lemma nodeColors_last_wins:
  assumes "tn_id n \<notin> tn_id ` set post"
  shows "nodeColors (pre @ n # post) (tn_id n) = Some (COLORS ! (length pre mod length COLORS))"
proof -
  let ?f = "\<lambda>(index, node) m. m(tn_id node \<mapsto> COLORS ! (index mod length COLORS))"
  have e: "enumerate 0 (pre @ n # post) = enumerate 0 pre @ (length pre, n) # enumerate (Suc (length pre)) post"
    by (simp add: enumerate_append_eq)
  have "nodeColors (pre @ n # post) (tn_id n)
      = fold ?f (enumerate (Suc (length pre)) post)
          ((fold ?f (enumerate 0 pre) Map.empty)(tn_id n \<mapsto> COLORS ! (length pre mod length COLORS))) (tn_id n)"
    unfolding nodeColors_def e by (simp only: fold_append fold_simps o_apply prod.case)
  also have "\<dots> = Some (COLORS ! (length pre mod length COLORS))"
    using nodeColors_fold_untouched[OF assms] by simp
  finally show ?thesis .
qed

text \<open>
  Claim C8, as the code has it. When several records share an id, the lookups keyed by id
  answer with the record read last: both the id-to-node map and the id-to-colour map are
  filled by storing the records in input order, and a later store replaces an earlier
  one. The record at index \<open>i\<close> answers for its id when no later record has that id.
\<close>

theorem last_record_wins:
  assumes "i < length treeNodes"
    and "\<forall>j. i < j \<and> j < length treeNodes \<longrightarrow> tn_id (treeNodes ! j) \<noteq> tn_id (treeNodes ! i)"
  shows "nodeMap treeNodes (tn_id (treeNodes ! i)) = Some (treeNodes ! i)
       \<and> nodeColors treeNodes (tn_id (treeNodes ! i)) = Some (COLORS ! (i mod length COLORS))"
proof -
  let ?pre = "take i treeNodes" and ?post = "drop (Suc i) treeNodes"
  have sp: "treeNodes = ?pre @ treeNodes ! i # ?post"
    using assms(1) by (rule id_take_nth_drop)
  have lp: "length ?pre = i" using assms(1) by simp
  have "tn_id (treeNodes ! i) \<notin> tn_id ` set ?post"
  proof
    assume "tn_id (treeNodes ! i) \<in> tn_id ` set ?post"
    then obtain m where m: "m \<in> set ?post" "tn_id m = tn_id (treeNodes ! i)" by auto
    then obtain k where k: "k < length ?post" "?post ! k = m" by (auto simp: in_set_conv_nth)
    then have "Suc i + k < length treeNodes" "treeNodes ! (Suc i + k) = m" by auto
    with assms(2) m(2) show False by (metis add_Suc less_add_Suc1)
  qed
  from nodeMap_last_wins[OF this, of ?pre] nodeColors_last_wins[OF this, of ?pre] sp lp
  show ?thesis by simp
qed

definition duplicateInput :: "TreeNodeData list" where
  "duplicateInput = parseCSV ''a,First,\<newline>a,Second,''"

theorem last_record_wins_witness:
  "nodeMap duplicateInput ''a'' = Some \<lparr>tn_id = ''a'', tn_label = ''Second'', tn_children = [], tn_position = None\<rparr>
   \<and> nodeColors duplicateInput ''a'' = Some ''#dc2626''"
proof -
  have d: "duplicateInput = [\<lparr>tn_id = ''a'', tn_label = ''First'', tn_children = [], tn_position = None\<rparr>,
     \<lparr>tn_id = ''a'', tn_label = ''Second'', tn_children = [], tn_position = None\<rparr>]"
    by code_simp
  have h1: "1 < length duplicateInput" by (simp add: d)
  have h2: "\<forall>j. 1 < j \<and> j < length duplicateInput \<longrightarrow> tn_id (duplicateInput ! j) \<noteq> tn_id (duplicateInput ! 1)"
    by (simp add: d)
  have c: "COLORS ! (1 mod length COLORS) = ''#dc2626''" by (simp add: COLORS_def)
  have e: "duplicateInput ! 1 = \<lparr>tn_id = ''a'', tn_label = ''Second'', tn_children = [], tn_position = None\<rparr>"
    by (simp add: d)
  from last_record_wins[OF h1 h2] show ?thesis unfolding e c by simp
qed

text \<open>
  The claim as the specification words it lets the first record win. On two records with
  the id \<^verbatim>\<open>a\<close> the node map answers with the label of the second one, and the colour of
  \<^verbatim>\<open>a\<close> is the second colour of the palette.
\<close>

theorem first_record_does_not_win:
  "tn_label (duplicateInput ! 0) = ''First''
   \<and> tn_id (duplicateInput ! 0) = ''a''
   \<and> map_option tn_label (nodeMap duplicateInput ''a'') = Some ''Second''
   \<and> COLORS ! 0 = ''#2563eb''
   \<and> nodeColors duplicateInput ''a'' = Some ''#dc2626''"
  by code_simp

section \<open>Properties of the snap assistant\<close>

text \<open>One axis of the snap, on the coordinates of the other nodes alone.\<close>

definition snapAxis :: "jsnum list \<Rightarrow> jsnum \<Rightarrow> jsnum" where
  "snapAxis vs c = fold (\<lambda>v c. if jless (jabs (jsub v c)) (Fin SNAP_THRESHOLD) then v else c) vs c"

definition otherNodes :: "FlowNode list \<Rightarrow> string \<Rightarrow> FlowNode list" where
  "otherNodes ns draggedNodeId = filter (\<lambda>n. fn_id n \<noteq> draggedNodeId) ns"

lemma snapPosition_axes:
  "snapPosition ns dragged (x, y) =
     (snapAxis (map (\<lambda>n. fst (fn_position n)) (otherNodes ns dragged)) x,
      snapAxis (map (\<lambda>n. snd (fn_position n)) (otherNodes ns dragged)) y)"
proof (induction ns arbitrary: x y)
  case Nil
  then show ?case by (simp add: snapPosition_def snapAxis_def otherNodes_def)
next
  case (Cons n ns)
  then show ?case
    by (simp add: snapPosition_def snapAxis_def otherNodes_def snapStep_def Let_def)
qed

lemma snapAxis_cases: "snapAxis vs c = c \<or> snapAxis vs c \<in> set vs"
proof (induction vs arbitrary: c)
  case Nil
  then show ?case by (simp add: snapAxis_def)
next
  case (Cons v vs)
  from Cons[of c] Cons[of v] show ?case by (auto simp add: snapAxis_def)
qed

lemma snapAxis_snaps:
  "\<exists>v \<in> set vs. jless (jabs (jsub v c)) (Fin SNAP_THRESHOLD) \<Longrightarrow> snapAxis vs c \<in> set vs"
proof (induction vs arbitrary: c)
  case Nil
  then show ?case by simp
next
  case (Cons v vs)
  show ?case
  proof (cases "jless (jabs (jsub v c)) (Fin SNAP_THRESHOLD)")
    case True
    then have "snapAxis (v # vs) c = snapAxis vs v" by (simp add: snapAxis_def)
    with snapAxis_cases[of vs v] show ?thesis by auto
  next
    case False
    then have e: "snapAxis (v # vs) c = snapAxis vs c" by (simp add: snapAxis_def)
    from False Cons.prems have "\<exists>v \<in> set vs. jless (jabs (jsub v c)) (Fin SNAP_THRESHOLD)" by auto
    from Cons.IH[OF this] e show ?thesis by simp
  qed
qed

lemma snapAxis_keeps:
  "\<forall>v \<in> set vs. \<not> jless (jabs (jsub v c)) (Fin SNAP_THRESHOLD) \<Longrightarrow> snapAxis vs c = c"
proof (induction vs)
  case Nil
  then show ?case by (simp add: snapAxis_def)
next
  case (Cons v vs)
  then show ?case by (simp add: snapAxis_def)
qed

lemma within_14_is_below_threshold: "jle a (Fin 14) \<Longrightarrow> jless a (Fin SNAP_THRESHOLD)"
  by (cases a) (auto simp add: jle_def SNAP_THRESHOLD_def)

lemma from_16_is_not_below_threshold: "jle (Fin 16) a \<Longrightarrow> \<not> jless a (Fin SNAP_THRESHOLD)"
  by (cases a) (auto simp add: jle_def SNAP_THRESHOLD_def)

definition snapExample :: "FlowNode list" where
  "snapExample =
     [\<lparr>fn_id = ''0'', fn_position = (Fin 0, Fin 0), fn_label = ''Root'', fn_children = [''1'', ''2''],
       fn_borderColor = ''#2563eb''\<rparr>,
      \<lparr>fn_id = ''1'', fn_position = (Fin (- 100), Fin 120), fn_label = ''Foo'', fn_children = [],
       fn_borderColor = ''#dc2626''\<rparr>,
      \<lparr>fn_id = ''2'', fn_position = (Fin 100, Fin 120), fn_label = ''Bar'', fn_children = [],
       fn_borderColor = ''#16a34a''\<rparr>]"

lemma snapExample_others:
  "otherNodes snapExample ''2'' =
     [\<lparr>fn_id = ''0'', fn_position = (Fin 0, Fin 0), fn_label = ''Root'', fn_children = [''1'', ''2''],
       fn_borderColor = ''#2563eb''\<rparr>,
      \<lparr>fn_id = ''1'', fn_position = (Fin (- 100), Fin 120), fn_label = ''Foo'', fn_children = [],
       fn_borderColor = ''#dc2626''\<rparr>]"
  by (simp add: snapExample_def otherNodes_def)

lemma snapExample_values:
  "snapPosition snapExample ''2'' (Fin 14, Fin 106) = (Fin 0, Fin 120)
   \<and> snapPosition snapExample ''2'' (Fin 15, Fin 135) = (Fin 15, Fin 135)"
  by (simp add: snapExample_def snapPosition_def snapStep_def jsub_def SNAP_THRESHOLD_def)

text \<open>
  Claim C6. On each axis: when some other node lies within \<open>SNAP_THRESHOLD - 1\<close> of the
  candidate coordinate, the returned coordinate is the coordinate of another node; when
  every other node lies at \<open>SNAP_THRESHOLD + 1\<close> or more, the returned coordinate is the
  candidate. The two axes are independent: each returned coordinate is computed from the
  candidate and the other nodes' coordinates on that axis alone.
\<close>

theorem snap_thresholds:
  "((\<exists>m \<in> set (otherNodes ns dragged). jle (jabs (jsub (fst (fn_position m)) x)) (Fin (SNAP_THRESHOLD - 1)))
      \<longrightarrow> fst (snapPosition ns dragged (x, y)) \<in> (\<lambda>n. fst (fn_position n)) ` set (otherNodes ns dragged))
   \<and> ((\<exists>m \<in> set (otherNodes ns dragged). jle (jabs (jsub (snd (fn_position m)) y)) (Fin (SNAP_THRESHOLD - 1)))
      \<longrightarrow> snd (snapPosition ns dragged (x, y)) \<in> (\<lambda>n. snd (fn_position n)) ` set (otherNodes ns dragged))
   \<and> ((\<forall>m \<in> set (otherNodes ns dragged). jle (Fin (SNAP_THRESHOLD + 1)) (jabs (jsub (fst (fn_position m)) x)))
      \<longrightarrow> fst (snapPosition ns dragged (x, y)) = x)
   \<and> ((\<forall>m \<in> set (otherNodes ns dragged). jle (Fin (SNAP_THRESHOLD + 1)) (jabs (jsub (snd (fn_position m)) y)))
      \<longrightarrow> snd (snapPosition ns dragged (x, y)) = y)
   \<and> fst (snapPosition ns dragged (x, y)) = snapAxis (map (\<lambda>n. fst (fn_position n)) (otherNodes ns dragged)) x
   \<and> snd (snapPosition ns dragged (x, y)) = snapAxis (map (\<lambda>n. snd (fn_position n)) (otherNodes ns dragged)) y"
proof (intro conjI impI)
  assume "\<exists>m \<in> set (otherNodes ns dragged). jle (jabs (jsub (fst (fn_position m)) x)) (Fin (SNAP_THRESHOLD - 1))"
  then have "\<exists>v \<in> set (map (\<lambda>n. fst (fn_position n)) (otherNodes ns dragged)). jless (jabs (jsub v x)) (Fin SNAP_THRESHOLD)"
    using within_14_is_below_threshold by (auto simp add: SNAP_THRESHOLD_def)
  from snapAxis_snaps[OF this]
  show "fst (snapPosition ns dragged (x, y)) \<in> (\<lambda>n. fst (fn_position n)) ` set (otherNodes ns dragged)"
    by (simp add: snapPosition_axes)
next
  assume "\<exists>m \<in> set (otherNodes ns dragged). jle (jabs (jsub (snd (fn_position m)) y)) (Fin (SNAP_THRESHOLD - 1))"
  then have "\<exists>v \<in> set (map (\<lambda>n. snd (fn_position n)) (otherNodes ns dragged)). jless (jabs (jsub v y)) (Fin SNAP_THRESHOLD)"
    using within_14_is_below_threshold by (auto simp add: SNAP_THRESHOLD_def)
  from snapAxis_snaps[OF this]
  show "snd (snapPosition ns dragged (x, y)) \<in> (\<lambda>n. snd (fn_position n)) ` set (otherNodes ns dragged)"
    by (simp add: snapPosition_axes)
next
  assume "\<forall>m \<in> set (otherNodes ns dragged). jle (Fin (SNAP_THRESHOLD + 1)) (jabs (jsub (fst (fn_position m)) x))"
  then have "\<forall>v \<in> set (map (\<lambda>n. fst (fn_position n)) (otherNodes ns dragged)). \<not> jless (jabs (jsub v x)) (Fin SNAP_THRESHOLD)"
    using from_16_is_not_below_threshold by (auto simp add: SNAP_THRESHOLD_def)
  from snapAxis_keeps[OF this]
  show "fst (snapPosition ns dragged (x, y)) = x" by (simp add: snapPosition_axes)
next
  assume "\<forall>m \<in> set (otherNodes ns dragged). jle (Fin (SNAP_THRESHOLD + 1)) (jabs (jsub (snd (fn_position m)) y))"
  then have "\<forall>v \<in> set (map (\<lambda>n. snd (fn_position n)) (otherNodes ns dragged)). \<not> jless (jabs (jsub v y)) (Fin SNAP_THRESHOLD)"
    using from_16_is_not_below_threshold by (auto simp add: SNAP_THRESHOLD_def)
  from snapAxis_keeps[OF this]
  show "snd (snapPosition ns dragged (x, y)) = y" by (simp add: snapPosition_axes)
qed (simp_all add: snapPosition_axes)

theorem snap_thresholds_witness:
  "fst (snapPosition snapExample ''2'' (Fin 14, Fin 106)) \<in> {Fin 0, Fin (- 100)}
   \<and> snd (snapPosition snapExample ''2'' (Fin 14, Fin 106)) \<in> {Fin 0, Fin 120}
   \<and> snapPosition snapExample ''2'' (Fin 16, Fin 136) = (Fin 16, Fin 136)"
proof -
  have hx: "\<exists>m \<in> set (otherNodes snapExample ''2''). jle (jabs (jsub (fst (fn_position m)) (Fin 14))) (Fin (SNAP_THRESHOLD - 1))"
    by (simp add: snapExample_others jle_def jsub_def SNAP_THRESHOLD_def)
  have hy: "\<exists>m \<in> set (otherNodes snapExample ''2''). jle (jabs (jsub (snd (fn_position m)) (Fin 106))) (Fin (SNAP_THRESHOLD - 1))"
    by (simp add: snapExample_others jle_def jsub_def SNAP_THRESHOLD_def)
  have kx: "\<forall>m \<in> set (otherNodes snapExample ''2''). jle (Fin (SNAP_THRESHOLD + 1)) (jabs (jsub (fst (fn_position m)) (Fin 16)))"
    by (simp add: snapExample_others jle_def jsub_def SNAP_THRESHOLD_def)
  have ky: "\<forall>m \<in> set (otherNodes snapExample ''2''). jle (Fin (SNAP_THRESHOLD + 1)) (jabs (jsub (snd (fn_position m)) (Fin 136)))"
    by (simp add: snapExample_others jle_def jsub_def SNAP_THRESHOLD_def)
  from snap_thresholds[of snapExample "''2''" "Fin 14" "Fin 106"] hx hy
  have a: "fst (snapPosition snapExample ''2'' (Fin 14, Fin 106)) \<in> (\<lambda>n. fst (fn_position n)) ` set (otherNodes snapExample ''2'')"
     "snd (snapPosition snapExample ''2'' (Fin 14, Fin 106)) \<in> (\<lambda>n. snd (fn_position n)) ` set (otherNodes snapExample ''2'')"
    by blast+
  from snap_thresholds[of snapExample "''2''" "Fin 16" "Fin 136"] kx ky
  have b: "fst (snapPosition snapExample ''2'' (Fin 16, Fin 136)) = Fin 16"
     "snd (snapPosition snapExample ''2'' (Fin 16, Fin 136)) = Fin 136"
    by blast+
  from a b show ?thesis by (simp add: snapExample_others prod_eq_iff)
qed

lemma snapStep_reads_id_and_position:
  "fn_id n = fn_id n' \<Longrightarrow> fn_position n = fn_position n' \<Longrightarrow> snapStep dragged n xy = snapStep dragged n' xy"
  by (simp add: snapStep_def)

lemma snapPosition_reads_id_and_position:
  "map (\<lambda>n. (fn_id n, fn_position n)) ns = map (\<lambda>n. (fn_id n, fn_position n)) ns' \<Longrightarrow>
     snapPosition ns dragged xy = snapPosition ns' dragged xy"
proof (induction ns arbitrary: ns' xy)
  case Nil
  then show ?case by simp
next
  case (Cons n ns)
  then obtain n' ms where e: "ns' = n' # ms" by (cases ns') auto
  with Cons.prems have h: "fn_id n = fn_id n'" "fn_position n = fn_position n'"
      "map (\<lambda>n. (fn_id n, fn_position n)) ns = map (\<lambda>n. (fn_id n, fn_position n)) ms"
    by auto
  from Cons.IH[OF h(3), of "snapStep dragged n xy"] snapStep_reads_id_and_position[OF h(1,2)] e
  show ?case by (simp add: snapPosition_def)
qed

text \<open>
  Claim C10. Each returned coordinate is the candidate or the coordinate of another
  current node on the same axis. The computation reads the ids and the positions of the
  nodes and nothing else: two node lists that agree on them give the same result. It
  returns the adjusted position only; the node list is an argument that it does not
  return, so nothing of the nodes is changed.
\<close>

theorem snap_result_invariant:
  "(fst (snapPosition ns dragged (x, y)) = x
      \<or> fst (snapPosition ns dragged (x, y)) \<in> (\<lambda>n. fst (fn_position n)) ` set (otherNodes ns dragged))
   \<and> (snd (snapPosition ns dragged (x, y)) = y
      \<or> snd (snapPosition ns dragged (x, y)) \<in> (\<lambda>n. snd (fn_position n)) ` set (otherNodes ns dragged))
   \<and> (map (\<lambda>n. (fn_id n, fn_position n)) ns = map (\<lambda>n. (fn_id n, fn_position n)) ns'
      \<longrightarrow> snapPosition ns dragged (x, y) = snapPosition ns' dragged (x, y))"
  using snapAxis_cases[of "map (\<lambda>n. fst (fn_position n)) (otherNodes ns dragged)" x]
        snapAxis_cases[of "map (\<lambda>n. snd (fn_position n)) (otherNodes ns dragged)" y]
        snapPosition_reads_id_and_position[of ns ns' dragged "(x, y)"]
  by (simp add: snapPosition_axes)

theorem snap_result_invariant_witness:
  "snapPosition snapExample ''2'' (Fin 14, Fin 106)
     = snapPosition (map (\<lambda>n. n\<lparr>fn_label := ''renamed''\<rparr>) snapExample) ''2'' (Fin 14, Fin 106)"
proof -
  have h: "map (\<lambda>n. (fn_id n, fn_position n)) snapExample
         = map (\<lambda>n. (fn_id n, fn_position n)) (map (\<lambda>n. n\<lparr>fn_label := ''renamed''\<rparr>) snapExample)"
    by (simp add: snapExample_def)
  from snap_result_invariant[of snapExample "''2''" "Fin 14" "Fin 106" "map (\<lambda>n. n\<lparr>fn_label := ''renamed''\<rparr>) snapExample"] h
  show ?thesis by blast
qed

section \<open>Properties of strings and printed numbers\<close>

subsection \<open>Splitting and joining\<close>

lemma split_no_separator: "c \<notin> set s \<Longrightarrow> split c s = [s]"
proof -
  assume "c \<notin> set s"
  then have d: "dropWhile (\<lambda>x. x \<noteq> c) s = []" by (auto simp add: dropWhile_eq_Nil_conv)
  show ?thesis by (subst split.simps) (simp only: d list.case)
qed

lemma split_at_first_separator: "c \<notin> set a \<Longrightarrow> split c (a @ c # b) = a # split c b"
proof -
  assume a: "c \<notin> set a"
  then have n: "\<And>x. x \<in> set a \<Longrightarrow> x \<noteq> c" by auto
  have d: "dropWhile (\<lambda>x. x \<noteq> c) (a @ c # b) = c # b"
    using n by (simp add: dropWhile_append2)
  have t: "takeWhile (\<lambda>x. x \<noteq> c) (a @ c # b) = a"
    using n by (simp add: takeWhile_append2)
  show ?thesis by (subst split.simps) (simp only: d t list.case)
qed

lemma join_Cons: "join sep (x # xs) = x @ concat (map (\<lambda>y. sep @ y) xs)"
  by (induction xs arbitrary: x) auto

lemma split_join:
  "xs \<noteq> [] \<Longrightarrow> \<forall>x \<in> set xs. c \<notin> set x \<Longrightarrow> split c (join [c] xs) = xs"
proof (induction xs rule: induct_list012)
  case 1
  then show ?case by simp
next
  case (2 x)
  then show ?case by (simp add: split_no_separator)
next
  case (3 x y ys)
  then have "split c (join [c] (y # ys)) = y # ys" by simp
  with 3(4) show ?case by (simp add: split_at_first_separator)
qed

lemma set_join: "set (join sep xs) \<subseteq> set sep \<union> \<Union> (set ` set xs)"
  by (induction sep xs rule: join.induct) auto

lemma split_elements: "x \<in> set (split c s) \<Longrightarrow> set x \<subseteq> set s \<and> c \<notin> set x"
proof (induction c s arbitrary: x rule: split.induct)
  case (1 c s)
  show ?case
  proof (cases "dropWhile (\<lambda>x. x \<noteq> c) s")
    case Nil
    with 1(2) have "x = s" by (subst (asm) split.simps) simp
    moreover from Nil have "c \<notin> set s" by (auto simp add: dropWhile_eq_Nil_conv)
    ultimately show ?thesis by simp
  next
    case (Cons d rest)
    with 1(2) have "x = takeWhile (\<lambda>x. x \<noteq> c) s \<or> x \<in> set (split c rest)"
      by (subst (asm) split.simps) simp
    then show ?thesis
    proof
      assume "x = takeWhile (\<lambda>x. x \<noteq> c) s"
      then show ?thesis by (auto dest: set_takeWhileD)
    next
      assume "x \<in> set (split c rest)"
      from 1(1)[OF Cons this] have "set x \<subseteq> set rest" "c \<notin> set x" by auto
      moreover have "set rest \<subseteq> set s"
        using Cons set_dropWhileD[of _ "\<lambda>x. x \<noteq> c" s] by (metis list.set_intros(2) subsetI)
      ultimately show ?thesis by auto
    qed
  qed
qed

subsection \<open>Trimming\<close>

definition trimmed :: "string \<Rightarrow> bool" where
  "trimmed s = (s = [] \<or> (\<not> is_space (hd s) \<and> \<not> is_space (last s)))"

lemma trim_trimmed: "trimmed s \<Longrightarrow> trim s = s"
proof (cases s)
  case Nil
  then show ?thesis by (simp add: trim_def)
next
  case (Cons a t)
  assume "trimmed s"
  with Cons have h: "\<not> is_space (hd s)" "\<not> is_space (last s)" "s \<noteq> []" by (auto simp add: trimmed_def)
  then have 1: "dropWhile is_space s = s" by (cases s) auto
  from h obtain y ys where r: "rev s = y # ys" by (cases "rev s") auto
  then have "y = last s" using h(3) by (metis hd_rev list.sel(1))
  with h(2) have "dropWhile is_space (y # ys) = y # ys" by simp
  then have 2: "dropWhile is_space (rev s) = rev s" by (simp only: r)
  show ?thesis by (simp add: trim_def 1 2)
qed

lemma dropWhile_hd: "dropWhile P s \<noteq> [] \<Longrightarrow> \<not> P (hd (dropWhile P s))"
  by (metis hd_dropWhile)

lemma trimmed_trim: "trimmed (trim s)"
proof (cases "trim s = []")
  case True
  then show ?thesis by (simp add: trimmed_def)
next
  case False
  define a where "a = dropWhile is_space s"
  define b where "b = dropWhile is_space (rev a)"
  have t: "trim s = rev b" by (simp add: trim_def a_def b_def)
  with False have bne: "b \<noteq> []" by simp
  then have "\<not> is_space (hd b)" unfolding b_def by (rule dropWhile_hd)
  then have l: "\<not> is_space (last (trim s))" using bne by (simp add: t last_rev)
  have "a = [] \<Longrightarrow> b = []" by (simp add: b_def)
  with bne have ane: "a \<noteq> []" by blast
  then have ha: "\<not> is_space (hd a)" unfolding a_def by (rule dropWhile_hd)
  have "rev a = takeWhile is_space (rev a) @ b" by (simp add: b_def)
  then have "rev (rev a) = rev (takeWhile is_space (rev a) @ b)" by (rule arg_cong)
  then have "a = rev b @ rev (takeWhile is_space (rev a))" by (simp only: rev_rev_ident rev_append)
  then have "hd a = hd (rev b @ rev (takeWhile is_space (rev a)))" by (rule arg_cong)
  also have "\<dots> = hd (rev b)" using bne by simp
  finally have "hd a = hd (trim s)" by (simp add: t)
  with ha l show ?thesis by (simp add: trimmed_def)
qed

lemma set_trim: "set (trim s) \<subseteq> set s"
proof -
  have "set (dropWhile is_space (rev (dropWhile is_space s))) \<subseteq> set (rev (dropWhile is_space s))"
    by (auto dest: set_dropWhileD)
  also have "\<dots> \<subseteq> set s" by (auto dest: set_dropWhileD)
  finally show ?thesis by (simp add: trim_def)
qed

lemma trimmed_append:
  "a \<noteq> [] \<Longrightarrow> \<not> is_space (hd a) \<Longrightarrow> b \<noteq> [] \<Longrightarrow> \<not> is_space (last b) \<Longrightarrow> trimmed (a @ m @ b)"
  by (simp add: trimmed_def)

subsection \<open>Digits and printed numbers\<close>

lemma of_char_digit_char: "0 \<le> d \<Longrightarrow> d < 10 \<Longrightarrow> (of_char (digit_char d) :: int) = 48 + d"
  by (simp add: digit_char_def)

lemma is_digit_digit_char: "0 \<le> d \<Longrightarrow> d < 10 \<Longrightarrow> is_digit (digit_char d)"
  by (simp add: is_digit_def of_char_digit_char)

lemma digit_val_digit_char: "0 \<le> d \<Longrightarrow> d < 10 \<Longrightarrow> digit_val (digit_char d) = d"
  by (simp add: digit_val_def of_char_digit_char)

lemma int_digits_digits: "0 \<le> n \<Longrightarrow> c \<in> set (int_digits n) \<Longrightarrow> is_digit c"
proof (induction n arbitrary: c rule: int_digits.induct)
  case (1 n)
  show ?case
  proof (cases "n < 10")
    case True
    with 1(2,3) show ?thesis by (subst (asm) int_digits.simps) (simp add: is_digit_digit_char)
  next
    case False
    with 1(3) have "c \<in> set (int_digits (n div 10)) \<or> c = digit_char (n mod 10)"
      by (subst (asm) int_digits.simps) auto
    moreover have "0 \<le> n div 10" using 1(2) by simp
    ultimately show ?thesis using 1(1)[OF False] by (auto simp add: is_digit_digit_char)
  qed
qed

lemma int_digits_nonempty: "int_digits n \<noteq> []"
  by (subst int_digits.simps) simp

lemma digits_val_snoc: "digits_val (ds @ [c]) = 10 * digits_val ds + digit_val c"
  by (simp add: digits_val_def)

lemma digits_val_int_digits: "0 \<le> n \<Longrightarrow> digits_val (int_digits n) = n"
proof (induction n rule: int_digits.induct)
  case (1 n)
  show ?case
  proof (cases "n < 10")
    case True
    with 1(2) show ?thesis
      by (subst int_digits.simps) (simp add: digits_val_def digit_val_digit_char)
  next
    case False
    with 1 have "digits_val (int_digits (n div 10)) = n div 10" by simp
    with False show ?thesis
      by (subst int_digits.simps) (simp add: digits_val_snoc digit_val_digit_char)
  qed
qed

lemma is_digit_not_special:
  "is_digit c \<Longrightarrow> \<not> is_space c \<and> c \<noteq> CHR '','' \<and> c \<noteq> CHR '';'' \<and> c \<noteq> CHR ''-''
     \<and> c \<noteq> CHR ''+'' \<and> c \<noteq> CHR ''.'' \<and> c \<noteq> CHR ''e'' \<and> c \<noteq> CHR ''E'' \<and> c \<noteq> CHR ''I''"
  by (auto simp add: is_digit_def is_space_def)

lemma takeWhile_all: "(\<And>c. c \<in> set ds \<Longrightarrow> P c) \<Longrightarrow> takeWhile P ds = ds"
  by (induction ds) auto

lemma dropWhile_all: "(\<And>c. c \<in> set ds \<Longrightarrow> P c) \<Longrightarrow> dropWhile P ds = []"
  by (induction ds) auto

lemma parseInt_int_digits: "0 \<le> n \<Longrightarrow> parseInt (int_digits n) = Fin (of_int n)"
proof -
  assume n: "0 \<le> n"
  let ?ds = "int_digits n"
  obtain c cs where cs: "?ds = c # cs" using int_digits_nonempty[of n] by (cases ?ds) auto
  then have dc: "is_digit c" using int_digits_digits[OF n, of c] by simp
  then have 1: "trimStart ?ds = ?ds" using cs is_digit_not_special[of c] by (simp add: trimStart_def)
  have 2: "take_sign ?ds = (False, ?ds)" using cs dc is_digit_not_special[of c] by simp
  have 3: "takeWhile is_digit ?ds = ?ds" by (rule takeWhile_all) (rule int_digits_digits[OF n])
  show ?thesis
    by (simp add: parseInt_def 1 2 3 int_digits_nonempty digits_val_int_digits n)
qed

lemma parseFloat_int_digits: "0 \<le> n \<Longrightarrow> parseFloat (int_digits n) = Fin (of_int n)"
proof -
  assume n: "0 \<le> n"
  let ?ds = "int_digits n"
  obtain c cs where cs: "?ds = c # cs" using int_digits_nonempty[of n] by (cases ?ds) auto
  then have dc: "is_digit c" using int_digits_digits[OF n, of c] by simp
  then have 1: "trimStart ?ds = ?ds" using cs is_digit_not_special[of c] by (simp add: trimStart_def)
  have 2: "take_sign ?ds = (False, ?ds)" using cs dc is_digit_not_special[of c] by simp
  have 3: "takeWhile is_digit ?ds = ?ds" by (rule takeWhile_all) (rule int_digits_digits[OF n])
  have 4: "dropWhile is_digit ?ds = []" by (rule dropWhile_all) (rule int_digits_digits[OF n])
  have 5: "take 8 ?ds \<noteq> ''Infinity''" using cs dc is_digit_not_special[of c] by auto
  show ?thesis
    by (simp add: parseFloat_def 1 2 3 4 5 int_digits_nonempty digits_val_int_digits n
        exponent_of_def scale10_def)
qed

lemma parseFloat_minus_int_digits: "0 \<le> n \<Longrightarrow> parseFloat (CHR ''-'' # int_digits n) = Fin (- of_int n)"
proof -
  assume n: "0 \<le> n"
  let ?ds = "int_digits n"
  obtain c cs where cs: "?ds = c # cs" using int_digits_nonempty[of n] by (cases ?ds) auto
  then have dc: "is_digit c" using int_digits_digits[OF n, of c] by simp
  have 1: "trimStart (CHR ''-'' # ?ds) = CHR ''-'' # ?ds" by (simp add: trimStart_def is_space_def)
  have 2: "take_sign (CHR ''-'' # ?ds) = (True, ?ds)" by simp
  have 3: "takeWhile is_digit ?ds = ?ds" by (rule takeWhile_all) (rule int_digits_digits[OF n])
  have 4: "dropWhile is_digit ?ds = []" by (rule dropWhile_all) (rule int_digits_digits[OF n])
  have 5: "take 8 ?ds \<noteq> ''Infinity''" using cs dc is_digit_not_special[of c] by auto
  show ?thesis
    by (simp add: parseFloat_def 1 2 3 4 5 int_digits_nonempty digits_val_int_digits n
        exponent_of_def scale10_def)
qed

lemma parseFloat_intToString: "parseFloat (intToString k) = Fin (of_int k)"
  by (simp add: intToString_def parseFloat_minus_int_digits parseFloat_int_digits)

lemma parseFloat_roundedString: "\<not> isNaN v \<Longrightarrow> parseFloat (roundedString v) = mathRound v"
proof (cases v)
  case NaN
  assume "\<not> isNaN v"
  with NaN show ?thesis by simp
next
  case PInf
  then show ?thesis by (simp add: parseFloat_def trimStart_def is_space_def)
next
  case NInf
  then show ?thesis by (simp add: parseFloat_def trimStart_def is_space_def)
next
  case (Fin a)
  then show ?thesis by (simp add: parseFloat_intToString)
qed

text \<open>The characters of a printed number: no separator of the record format, no white space.\<close>

definition plain :: "char \<Rightarrow> bool" where
  "plain c = (\<not> is_space c \<and> c \<noteq> CHR '','' \<and> c \<noteq> CHR '';'')"

lemma is_digit_plain: "is_digit c \<Longrightarrow> plain c"
  using is_digit_not_special[of c] by (simp add: plain_def)

lemma minus_plain: "plain CHR ''-''"
  by (simp add: plain_def is_space_def)

lemma intToString_plain: "c \<in> set (intToString k) \<Longrightarrow> plain c"
proof -
  assume "c \<in> set (intToString k)"
  then have "c = CHR ''-'' \<or> is_digit c"
    using int_digits_digits[of "- k" c] int_digits_digits[of k c]
    by (auto simp add: intToString_def split: if_splits)
  then show ?thesis using minus_plain is_digit_plain by blast
qed

lemma special_words_plain:
  "list_all plain ''NaN''" "list_all plain ''Infinity''" "list_all plain ''-Infinity''"
  by code_simp+

lemma roundedString_plain: "c \<in> set (roundedString v) \<Longrightarrow> plain c"
proof (cases v)
  case NaN
  assume "c \<in> set (roundedString v)"
  with NaN special_words_plain(1) show ?thesis by (simp only: roundedString.simps list_all_iff)
next
  case PInf
  assume "c \<in> set (roundedString v)"
  with PInf special_words_plain(2) show ?thesis by (simp only: roundedString.simps list_all_iff)
next
  case NInf
  assume "c \<in> set (roundedString v)"
  with NInf special_words_plain(3) show ?thesis by (simp only: roundedString.simps list_all_iff)
next
  case (Fin a)
  assume "c \<in> set (roundedString v)"
  with Fin show ?thesis by (simp add: intToString_plain)
qed

lemma roundedString_nonempty: "roundedString v \<noteq> []"
  by (cases v) (auto simp add: intToString_def int_digits_nonempty)

section \<open>Properties of the layout engine\<close>

subsection \<open>Keys of the depth map\<close>

lemma assignDepth_distinct:
  "distinct (map fst ds) \<Longrightarrow> distinct (map fst (assignDepth ns i d ds))"
  "distinct (map fst ds) \<Longrightarrow> distinct (map fst (assignDepthChildren ns cs d ds))"
proof (induction ns i d ds and ns cs d ds rule: assignDepth_assignDepthChildren.induct)
  case (1 treeNodes nodeId depth nodeDepths)
  have u: "distinct (map fst (AList.update nodeId depth nodeDepths))"
    using 1(2) by (rule AList.distinct_update)
  show ?case
  proof (cases "map_of nodeDepths nodeId")
    case None
    note unvisited = this
    show ?thesis
    proof (cases "nodeMap treeNodes nodeId")
      case None
      with unvisited u show ?thesis by (simp add: assignDepth.simps)
    next
      case (Some node)
      with unvisited 1(1)[OF unvisited Some u] show ?thesis by (simp add: assignDepth.simps)
    qed
  next
    case (Some old)
    with u 1(2) show ?thesis by (simp add: assignDepth.simps)
  qed
next
  case (2 treeNodes depth nodeDepths)
  then show ?case by simp
next
  case (3 treeNodes childId rest depth nodeDepths)
  then show ?case by simp
qed

lemma fold_preserves: "P s \<Longrightarrow> (\<And>x s. P s \<Longrightarrow> P (f x s)) \<Longrightarrow> P (fold f xs s)"
  by (induction xs arbitrary: s) auto

lemma computeDepths_distinct: "distinct (map fst (computeDepths ns))"
proof -
  have 1: "distinct (map fst (fold (\<lambda>rootId nodeDepths. assignDepth ns rootId 0 nodeDepths) (rootIds ns) []))"
    by (rule fold_preserves[where P = "\<lambda>s. distinct (map fst s)"]) (simp_all add: assignDepth_distinct)
  have "distinct (map fst (fold (fallbackStep ns) ns
      (fold (\<lambda>rootId nodeDepths. assignDepth ns rootId 0 nodeDepths) (rootIds ns) [])))"
    by (rule fold_preserves[where P = "\<lambda>s. distinct (map fst s)", OF 1])
       (simp add: fallbackStep_def assignDepth_distinct)
  then show ?thesis by (simp add: computeDepths_def)
qed

lemma computeDepths_covers: "n \<in> set ns \<Longrightarrow> tn_id n \<in> fst ` set (computeDepths ns)"
  unfolding computeDepths_def Let_def by (rule fold_fallback_covers)

subsection \<open>The computed positions\<close>

text \<open>The position that the computed branch gives to the node at an index of a layer.\<close>

definition layerPosition :: "depths \<Rightarrow> nat \<Rightarrow> nat \<Rightarrow> jsnum \<times> jsnum" where
  "layerPosition nodeDepths depth index =
     (Fin (- (of_nat (length (levelIds nodeDepths depth)) * HORIZONTAL_SPACING) / 2
           + HORIZONTAL_SPACING / 2 + of_nat index * HORIZONTAL_SPACING),
      Fin (of_nat depth * VERTICAL_SPACING))"

lemma in_levelIds: "i \<in> set (levelIds ds depth) \<longleftrightarrow> (i, depth) \<in> set ds"
  by (force simp add: levelIds_def)

lemma layerFlowNodes_positions:
  "layerFlowNodes ns ds depth =
     List.map_filter
       (\<lambda>(index, nodeId).
          case nodeMap ns nodeId of
            None \<Rightarrow> None
          | Some node \<Rightarrow>
              Some \<lparr>fn_id = nodeId, fn_position = layerPosition ds depth index,
                    fn_label = tn_label node, fn_children = tn_children node,
                    fn_borderColor = colorOf ns nodeId\<rparr>)
       (enumerate 0 (levelIds ds depth))"
  by (simp only: layerFlowNodes_def Let_def layerPosition_def)

lemma in_layerFlowNodesE:
  assumes "f \<in> set (layerFlowNodes ns ds depth)"
  obtains index node where "index < length (levelIds ds depth)"
    and "nodeMap ns (levelIds ds depth ! index) = Some node"
    and "f = \<lparr>fn_id = levelIds ds depth ! index, fn_position = layerPosition ds depth index,
                fn_label = tn_label node, fn_children = tn_children node,
                fn_borderColor = colorOf ns (levelIds ds depth ! index)\<rparr>"
proof -
  from assms obtain index nodeId where
      e: "(index, nodeId) \<in> set (enumerate 0 (levelIds ds depth))"
      and s: "(case nodeMap ns nodeId of
                None \<Rightarrow> None
              | Some node \<Rightarrow>
                  Some \<lparr>fn_id = nodeId,
                        fn_position = layerPosition ds depth index,
                        fn_label = tn_label node, fn_children = tn_children node,
                        fn_borderColor = colorOf ns nodeId\<rparr>) = Some f"
    unfolding layerFlowNodes_positions List.map_filter_def by auto
  from e have i: "index < length (levelIds ds depth)" "levelIds ds depth ! index = nodeId"
    by (auto simp add: in_set_enumerate_eq)
  from s obtain node where n: "nodeMap ns nodeId = Some node" by (cases "nodeMap ns nodeId") auto
  with s have "f = \<lparr>fn_id = nodeId, fn_position = layerPosition ds depth index,
          fn_label = tn_label node, fn_children = tn_children node,
          fn_borderColor = colorOf ns nodeId\<rparr>"
    by simp
  with i n that[of index node] show thesis by simp
qed

lemma in_layerFlowNodesI:
  assumes "index < length (levelIds ds depth)"
    and "nodeMap ns (levelIds ds depth ! index) = Some node"
  shows "\<lparr>fn_id = levelIds ds depth ! index, fn_position = layerPosition ds depth index,
          fn_label = tn_label node, fn_children = tn_children node,
          fn_borderColor = colorOf ns (levelIds ds depth ! index)\<rparr>
         \<in> set (layerFlowNodes ns ds depth)"
proof -
  from assms(1) have "(index, levelIds ds depth ! index) \<in> set (enumerate 0 (levelIds ds depth))"
    by (simp add: in_set_enumerate_eq)
  with assms(2) show ?thesis
    unfolding layerFlowNodes_positions List.map_filter_def by force
qed

lemma in_autoFlowNodes:
  "f \<in> set (autoFlowNodes ns) \<longleftrightarrow>
     (\<exists>depth. depth \<le> Max (set (map snd (computeDepths ns))) \<and> computeDepths ns \<noteq> []
        \<and> f \<in> set (layerFlowNodes ns (computeDepths ns) depth))"
  by (auto simp add: autoFlowNodes_def Let_def less_Suc_eq_le simp del: upt_Suc)

lemma auto_node_position:
  assumes "f \<in> set (autoFlowNodes ns)"
  shows "\<exists>depth index. map_of (computeDepths ns) (fn_id f) = Some depth
           \<and> index < length (levelIds (computeDepths ns) depth)
           \<and> levelIds (computeDepths ns) depth ! index = fn_id f
           \<and> fn_position f = layerPosition (computeDepths ns) depth index"
proof -
  from assms obtain depth where "f \<in> set (layerFlowNodes ns (computeDepths ns) depth)"
    by (auto simp add: in_autoFlowNodes)
  then obtain index and node :: TreeNodeData
    where h: "index < length (levelIds (computeDepths ns) depth)"
      "f = \<lparr>fn_id = levelIds (computeDepths ns) depth ! index,
            fn_position = layerPosition (computeDepths ns) depth index,
            fn_label = tn_label node, fn_children = tn_children node,
            fn_borderColor = colorOf ns (levelIds (computeDepths ns) depth ! index)\<rparr>"
    by (rule in_layerFlowNodesE)
  from h(1) have "levelIds (computeDepths ns) depth ! index \<in> set (levelIds (computeDepths ns) depth)"
    by simp
  then have "(fn_id f, depth) \<in> set (computeDepths ns)" using h(2) by (simp add: in_levelIds)
  then have "map_of (computeDepths ns) (fn_id f) = Some depth"
    using computeDepths_distinct by (simp add: map_of_is_SomeI)
  with h show ?thesis by auto
qed

lemma auto_node_exists:
  assumes "n \<in> set ns"
  shows "\<exists>f \<in> set (autoFlowNodes ns). fn_id f = tn_id n"
proof -
  let ?ds = "computeDepths ns"
  from computeDepths_covers[OF assms] obtain depth where d: "(tn_id n, depth) \<in> set ?ds" by auto
  then have ne: "?ds \<noteq> []" by auto
  from d have "depth \<in> set (map snd ?ds)" by force
  then have le: "depth \<le> Max (set (map snd ?ds))" by (simp add: Max_ge)
  from d have "tn_id n \<in> set (levelIds ?ds depth)" by (simp add: in_levelIds)
  then obtain index where i: "index < length (levelIds ?ds depth)" "levelIds ?ds depth ! index = tn_id n"
    by (auto simp add: in_set_conv_nth)
  from assms have "tn_id n \<in> dom (nodeMap ns)" by (simp add: dom_nodeMap)
  then obtain node where m: "nodeMap ns (tn_id n) = Some node" by auto
  let ?f = "\<lparr>fn_id = levelIds ?ds depth ! index, fn_position = layerPosition ?ds depth index,
                fn_label = tn_label node, fn_children = tn_children node,
                fn_borderColor = colorOf ns (levelIds ?ds depth ! index)\<rparr>"
  have "?f \<in> set (layerFlowNodes ns ?ds depth)" using i m by (intro in_layerFlowNodesI) simp_all
  then have "?f \<in> set (autoFlowNodes ns)" using le ne by (auto simp add: in_autoFlowNodes)
  moreover have "fn_id ?f = tn_id n" using i by simp
  ultimately show ?thesis by blast
qed

subsection \<open>The computed branch does not read the stored positions\<close>

definition erasePosition :: "TreeNodeData \<Rightarrow> TreeNodeData" where
  "erasePosition n = n\<lparr>tn_position := None\<rparr>"

lemma erasePosition_fields [simp]:
  "tn_id (erasePosition n) = tn_id n" "tn_label (erasePosition n) = tn_label n"
  "tn_children (erasePosition n) = tn_children n" "tn_position (erasePosition n) = None"
  by (simp_all add: erasePosition_def)

lemma nodeMap_fold_erase:
  "fold (\<lambda>n m. m(tn_id n \<mapsto> n)) (map erasePosition ns) (map_option erasePosition \<circ> m0)
     = map_option erasePosition \<circ> fold (\<lambda>n m. m(tn_id n \<mapsto> n)) ns m0"
proof (induction ns arbitrary: m0)
  case Nil
  then show ?case by simp
next
  case (Cons n ns)
  have s: "(map_option erasePosition \<circ> m0)(tn_id (erasePosition n) \<mapsto> erasePosition n)
         = map_option erasePosition \<circ> (m0(tn_id n \<mapsto> n))"
    by (rule ext) simp
  show ?case by (simp only: list.map fold_simps s Cons.IH)
qed

lemma nodeMap_erase: "nodeMap (map erasePosition ns) i = map_option erasePosition (nodeMap ns i)"
proof -
  have "(map_option erasePosition \<circ> Map.empty) = (Map.empty :: string \<rightharpoonup> TreeNodeData)"
    by (rule ext) simp
  with nodeMap_fold_erase[of ns Map.empty] show ?thesis
    by (simp add: nodeMap_def)
qed

lemma assignDepth_erase:
  "assignDepth (map erasePosition ns) i d ds = assignDepth ns i d ds"
  "assignDepthChildren (map erasePosition ns) cs d ds = assignDepthChildren ns cs d ds"
proof (induction ns i d ds and ns cs d ds rule: assignDepth_assignDepthChildren.induct)
  case (1 treeNodes nodeId depth nodeDepths)
  show ?case
  proof (cases "map_of nodeDepths nodeId")
    case None
    note unvisited = this
    show ?thesis
    proof (cases "nodeMap treeNodes nodeId")
      case None
      with unvisited show ?thesis by (simp add: assignDepth.simps nodeMap_erase)
    next
      case (Some node)
      with unvisited 1[OF unvisited Some] show ?thesis
        by (simp add: assignDepth.simps nodeMap_erase)
    qed
  next
    case (Some old)
    then show ?thesis by (simp add: assignDepth.simps)
  qed
next
  case (2 treeNodes depth nodeDepths)
  then show ?case by simp
next
  case (3 treeNodes childId rest depth nodeDepths)
  then show ?case by simp
qed

lemma rootIds_erase: "rootIds (map erasePosition ns) = rootIds ns"
  by (simp add: rootIds_def Let_def filter_map comp_def)

lemma fallbackStep_erase:
  "fallbackStep (map erasePosition ns) (erasePosition n) ds = fallbackStep ns n ds"
  by (simp add: fallbackStep_def assignDepth_erase)

lemma computeDepths_erase: "computeDepths (map erasePosition ns) = computeDepths ns"
proof -
  have "fold (fallbackStep (map erasePosition ns)) (map erasePosition ms) ds = fold (fallbackStep ns) ms ds"
    for ms ds
    by (induction ms arbitrary: ds) (simp_all add: fallbackStep_erase)
  then show ?thesis
    by (simp add: computeDepths_def rootIds_erase assignDepth_erase)
qed

lemma nodeColors_fold_erase:
  "fold (\<lambda>(index, node) m. m(tn_id node \<mapsto> COLORS ! (index mod length COLORS)))
       (enumerate j (map erasePosition ns)) m0
   = fold (\<lambda>(index, node) m. m(tn_id node \<mapsto> COLORS ! (index mod length COLORS)))
       (enumerate j ns) m0"
proof (induction ns arbitrary: j m0)
  case Nil
  then show ?case by simp
next
  case (Cons n ns)
  show ?case by (simp only: list.map enumerate_simps fold_simps prod.case erasePosition_fields Cons.IH)
qed

lemma colorOf_erase: "colorOf (map erasePosition ns) i = colorOf ns i"
  by (simp only: colorOf_def nodeColors_def nodeColors_fold_erase)

lemma layerFlowNodes_erase:
  "layerFlowNodes (map erasePosition ns) ds depth = layerFlowNodes ns ds depth"
proof -
  have "(case nodeMap (map erasePosition ns) nodeId of
            None \<Rightarrow> None
          | Some node \<Rightarrow>
              Some \<lparr>fn_id = nodeId, fn_position = p,
                    fn_label = tn_label node, fn_children = tn_children node,
                    fn_borderColor = colorOf (map erasePosition ns) nodeId\<rparr>)
      = (case nodeMap ns nodeId of
            None \<Rightarrow> None
          | Some node \<Rightarrow>
              Some \<lparr>fn_id = nodeId, fn_position = p,
                    fn_label = tn_label node, fn_children = tn_children node,
                    fn_borderColor = colorOf ns nodeId\<rparr>)" for nodeId p
    by (cases "nodeMap ns nodeId") (simp_all add: nodeMap_erase colorOf_erase)
  then show ?thesis by (simp only: layerFlowNodes_positions)
qed

lemma autoFlowNodes_erase: "autoFlowNodes (map erasePosition ns) = autoFlowNodes ns"
proof -
  have "layerFlowNodes (map erasePosition ns) ds = layerFlowNodes ns ds" for ds
    by (rule ext) (rule layerFlowNodes_erase)
  then show ?thesis by (simp only: autoFlowNodes_def computeDepths_erase)
qed

lemma flowNodes_erase:
  assumes "\<not> hasExplicitPositions ns"
  shows "flowNodes ns = flowNodes (map erasePosition ns)"
proof -
  from assms obtain n where "n \<in> set ns" by (auto simp add: hasExplicitPositions_def list_all_iff)
  then have "\<not> hasExplicitPositions (map erasePosition ns)"
    by (auto simp add: hasExplicitPositions_def list_all_iff)
  with assms show ?thesis by (simp add: flowNodes_def autoFlowNodes_erase)
qed

text \<open>
  Claim C3. The layout is in explicit mode exactly when every parsed node has a position.
  In explicit mode the nodes of the layout are the parsed nodes, in order, each at its
  stored position. Otherwise no stored position is used: the layout is the one of the
  same nodes with every position erased, every parsed id has a node in it, and every
  node of it sits at the position computed from its depth and its index in its layer.
\<close>

theorem explicit_mode_trigger:
  "(hasExplicitPositions treeNodes \<longleftrightarrow> (\<forall>n \<in> set treeNodes. tn_position n \<noteq> None))
   \<and> (hasExplicitPositions treeNodes \<longrightarrow>
        map fn_id (flowNodes treeNodes) = map tn_id treeNodes
      \<and> map (\<lambda>f. Some (fn_position f)) (flowNodes treeNodes) = map tn_position treeNodes)
   \<and> (\<not> hasExplicitPositions treeNodes \<longrightarrow>
        flowNodes treeNodes = flowNodes (map erasePosition treeNodes)
      \<and> (\<forall>n \<in> set treeNodes. \<exists>f \<in> set (flowNodes treeNodes). fn_id f = tn_id n)
      \<and> (\<forall>f \<in> set (flowNodes treeNodes).
            \<exists>depth index.
              map_of (computeDepths treeNodes) (fn_id f) = Some depth
            \<and> index < length (levelIds (computeDepths treeNodes) depth)
            \<and> levelIds (computeDepths treeNodes) depth ! index = fn_id f
            \<and> fn_position f = layerPosition (computeDepths treeNodes) depth index))"
proof (intro conjI impI)
  show "hasExplicitPositions treeNodes \<longleftrightarrow> (\<forall>n \<in> set treeNodes. tn_position n \<noteq> None)"
    by (simp add: hasExplicitPositions_def list_all_iff)
next
  assume "hasExplicitPositions treeNodes"
  then show "map fn_id (flowNodes treeNodes) = map tn_id treeNodes"
    by (simp add: flowNodes_def explicitFlowNodes_def comp_def)
next
  assume h: "hasExplicitPositions treeNodes"
  then have "\<forall>n \<in> set treeNodes. Some (the (tn_position n)) = tn_position n"
    by (auto simp add: hasExplicitPositions_def list_all_iff)
  with h show "map (\<lambda>f. Some (fn_position f)) (flowNodes treeNodes) = map tn_position treeNodes"
    by (simp add: flowNodes_def explicitFlowNodes_def comp_def)
next
  assume "\<not> hasExplicitPositions treeNodes"
  then show "flowNodes treeNodes = flowNodes (map erasePosition treeNodes)"
    by (rule flowNodes_erase)
next
  assume "\<not> hasExplicitPositions treeNodes"
  then show "\<forall>n \<in> set treeNodes. \<exists>f \<in> set (flowNodes treeNodes). fn_id f = tn_id n"
    by (simp add: flowNodes_def auto_node_exists)
next
  assume a: "\<not> hasExplicitPositions treeNodes"
  show "\<forall>f \<in> set (flowNodes treeNodes).
            \<exists>depth index.
              map_of (computeDepths treeNodes) (fn_id f) = Some depth
            \<and> index < length (levelIds (computeDepths treeNodes) depth)
            \<and> levelIds (computeDepths treeNodes) depth ! index = fn_id f
            \<and> fn_position f = layerPosition (computeDepths treeNodes) depth index"
  proof
    fix f assume "f \<in> set (flowNodes treeNodes)"
    with a have "f \<in> set (autoFlowNodes treeNodes)" by (simp add: flowNodes_def)
    then show "\<exists>depth index.
              map_of (computeDepths treeNodes) (fn_id f) = Some depth
            \<and> index < length (levelIds (computeDepths treeNodes) depth)
            \<and> levelIds (computeDepths treeNodes) depth ! index = fn_id f
            \<and> fn_position f = layerPosition (computeDepths treeNodes) depth index"
      by (rule auto_node_position)
  qed
qed

text \<open>Two inputs: one with a position on every record, one with a position on one record only.\<close>

definition explicitText :: string where
  "explicitText = ''0,Root,1;2,10;20\<newline>1,Foo,,-90.5;140\<newline>2,Bar,,110;140.5''"

definition explicitInput :: "TreeNodeData list" where
  "explicitInput = parseCSV explicitText"

definition mixedInput :: "TreeNodeData list" where
  "mixedInput = parseCSV ''0,Root,1,500;700\<newline>1,Kid,''"

lemma explicitInput_nodes:
  "explicitInput =
     [\<lparr>tn_id = ''0'', tn_label = ''Root'', tn_children = [''1'', ''2''], tn_position = Some (Fin 10, Fin 20)\<rparr>,
      \<lparr>tn_id = ''1'', tn_label = ''Foo'', tn_children = [], tn_position = Some (Fin (- (181 / 2)), Fin 140)\<rparr>,
      \<lparr>tn_id = ''2'', tn_label = ''Bar'', tn_children = [], tn_position = Some (Fin 110, Fin (281 / 2))\<rparr>]"
  by code_simp

lemma mixedInput_nodes:
  "mixedInput =
     [\<lparr>tn_id = ''0'', tn_label = ''Root'', tn_children = [''1''], tn_position = Some (Fin 500, Fin 700)\<rparr>,
      \<lparr>tn_id = ''1'', tn_label = ''Kid'', tn_children = [], tn_position = None\<rparr>]"
  by code_simp

lemma mixedInput_layout:
  "map fn_position (flowNodes mixedInput) = [(Fin 0, Fin 0), (Fin 0, Fin 120)]"
  by code_simp

theorem explicit_mode_trigger_witness:
  "map (\<lambda>f. Some (fn_position f)) (flowNodes explicitInput)
     = [Some (Fin 10, Fin 20), Some (Fin (- (181 / 2)), Fin 140), Some (Fin 110, Fin (281 / 2))]
   \<and> flowNodes mixedInput = flowNodes (map erasePosition mixedInput)
   \<and> (\<exists>f \<in> set (flowNodes mixedInput). fn_id f = ''0'')"
proof -
  have e: "hasExplicitPositions explicitInput" by (simp add: explicitInput_nodes hasExplicitPositions_def)
  have m: "\<not> hasExplicitPositions mixedInput" by (simp add: mixedInput_nodes hasExplicitPositions_def)
  have i: "\<lparr>tn_id = ''0'', tn_label = ''Root'', tn_children = [''1''], tn_position = Some (Fin 500, Fin 700)\<rparr> \<in> set mixedInput"
    by (simp add: mixedInput_nodes)
  from explicit_mode_trigger[of explicitInput] e
  have "map (\<lambda>f. Some (fn_position f)) (flowNodes explicitInput) = map tn_position explicitInput"
    by blast
  then have a: "map (\<lambda>f. Some (fn_position f)) (flowNodes explicitInput)
     = [Some (Fin 10, Fin 20), Some (Fin (- (181 / 2)), Fin 140), Some (Fin 110, Fin (281 / 2))]"
    by (simp add: explicitInput_nodes)
  from explicit_mode_trigger[of mixedInput] m
  have b: "flowNodes mixedInput = flowNodes (map erasePosition mixedInput)"
    and c: "\<forall>n \<in> set mixedInput. \<exists>f \<in> set (flowNodes mixedInput). fn_id f = tn_id n"
    by blast+
  from c i have "\<exists>f \<in> set (flowNodes mixedInput). fn_id f = ''0''" by force
  with a b show ?thesis by blast
qed

section \<open>Properties of the route planner\<close>

subsection \<open>Grouping by key\<close>

lemma map_of_pushTo:
  "map_of (pushTo k e g) k' =
     (if k' = k then Some ((case map_of g k of None \<Rightarrow> [] | Some es \<Rightarrow> es) @ [e]) else map_of g k')"
  by (simp add: pushTo_def AList.update_conv')

lemma map_of_fold_pushTo:
  "map_of (fold (\<lambda>x. pushTo (kf x) (vf x)) xs g) k =
     (if filter (\<lambda>x. kf x = k) xs = [] then map_of g k
      else Some ((case map_of g k of None \<Rightarrow> [] | Some es \<Rightarrow> es) @ map vf (filter (\<lambda>x. kf x = k) xs)))"
proof (induction xs arbitrary: g)
  case Nil
  then show ?case by simp
next
  case (Cons x xs)
  show ?case
  proof (cases "kf x = k")
    case True
    then show ?thesis by (simp add: Cons.IH map_of_pushTo)
  next
    case False
    then show ?thesis by (simp add: Cons.IH map_of_pushTo)
  qed
qed

lemma distinct_pushTo: "distinct (map fst g) \<Longrightarrow> distinct (map fst (pushTo k e g))"
  by (simp add: pushTo_def AList.distinct_update)

lemma distinct_fold_pushTo:
  "distinct (map fst g) \<Longrightarrow> distinct (map fst (fold (\<lambda>x. pushTo (kf x) (vf x)) xs g))"
  by (induction xs arbitrary: g) (simp_all add: distinct_pushTo)

lemma distinct_single_entry:
  "distinct (map fst al) \<Longrightarrow> map_of al k = Some v \<Longrightarrow> length (filter (\<lambda>p. fst p = k) al) = 1"
proof (induction al)
  case Nil
  then show ?case by simp
next
  case (Cons p al)
  show ?case
  proof (cases "fst p = k")
    case True
    with Cons.prems(1) have "k \<notin> fst ` set al" by auto
    then have "filter (\<lambda>p. fst p = k) al = []" by (auto simp add: filter_empty_conv)
    with True show ?thesis by simp
  next
    case False
    with Cons show ?thesis by (cases p) auto
  qed
qed

subsection \<open>The edges as pairs\<close>

text \<open>The pairs (source id, target id) in the order of the two nested loops.\<close>

definition edgePairs :: "TreeNodeData list \<Rightarrow> (string \<times> string) list" where
  "edgePairs treeNodes = concat (map (\<lambda>node. map (\<lambda>childId. (tn_id node, childId)) (tn_children node)) treeNodes)"

lemma flowEdges_pairs:
  "flowEdges ns =
     map (\<lambda>(s, c). \<lparr>fe_id = s @ ''-'' @ c, fe_source = s, fe_sourceHandle = ''source-'' @ c,
                     fe_target = c, fe_stroke = colorOf ns c\<rparr>) (edgePairs ns)"
  by (simp add: flowEdges_def edgePairs_def map_concat comp_def)

text \<open>
  The entry that an edge leaves under its target: the x and the bottom y of its source.
  Every source of an edge of the layout has a position (\<open>sources_have_positions\<close> below),
  so the first case is never met there.
\<close>

definition sourceEntry :: "(string \<rightharpoonup> jsnum \<times> jsnum) \<Rightarrow> string \<Rightarrow> jsnum \<times> jsnum" where
  "sourceEntry positions s =
     (case positions s of
        None \<Rightarrow> (NaN, NaN)
      | Some sourcePos \<Rightarrow> (fst sourcePos, jadd (snd sourcePos) (Fin NODE_HEIGHT)))"

lemma edgesByTarget_fold:
  "fold (\<lambda>node groups.
             case positions (tn_id node) of
               None \<Rightarrow> groups
             | Some sourcePos \<Rightarrow>
                 fold (\<lambda>childId groups.
                         pushTo childId (fst sourcePos, jadd (snd sourcePos) (Fin NODE_HEIGHT)) groups)
                   (tn_children node) groups)
       ns g
   = fold (\<lambda>p. pushTo (snd p) (sourceEntry positions (fst p)))
       (filter (\<lambda>p. positions (fst p) \<noteq> None) (edgePairs ns)) g"
proof (induction ns arbitrary: g)
  case Nil
  then show ?case by (simp add: edgePairs_def)
next
  case (Cons node ns)
  have inner: "(case positions (tn_id node) of
               None \<Rightarrow> g
             | Some sourcePos \<Rightarrow>
                 fold (\<lambda>childId groups.
                         pushTo childId (fst sourcePos, jadd (snd sourcePos) (Fin NODE_HEIGHT)) groups)
                   (tn_children node) g)
      = fold (\<lambda>p. pushTo (snd p) (sourceEntry positions (fst p)))
          (filter (\<lambda>p. positions (fst p) \<noteq> None) (map (\<lambda>childId. (tn_id node, childId)) (tn_children node))) g"
  proof (cases "positions (tn_id node)")
    case None
    then show ?thesis by (simp add: filter_map comp_def)
  next
    case (Some sourcePos)
    then show ?thesis by (simp add: filter_map comp_def fold_map sourceEntry_def)
  qed
  have ep: "edgePairs (node # ns) = map (\<lambda>childId. (tn_id node, childId)) (tn_children node) @ edgePairs ns"
    by (simp add: edgePairs_def)
  show ?case
    by (simp only: fold_simps inner Cons.IH ep filter_append fold_append o_apply)
qed

lemma edgesByTarget_pairs:
  "edgesByTarget ns positions =
     fold (\<lambda>p. pushTo (snd p) (sourceEntry positions (fst p)))
       (filter (\<lambda>p. positions (fst p) \<noteq> None) (edgePairs ns)) []"
  unfolding edgesByTarget_def by (rule edgesByTarget_fold)

lemma edgePairs_sources: "p \<in> set (edgePairs ns) \<Longrightarrow> fst p \<in> tn_id ` set ns"
  by (auto simp add: edgePairs_def)

subsection \<open>Positions of the nodes\<close>

lemma dom_nodePositions_fold:
  "dom (fold (\<lambda>n m. m(fn_id n \<mapsto> (jadd (fst (fn_position n)) (Fin (NODE_WIDTH / 2)), snd (fn_position n)))) fs m0)
     = dom m0 \<union> fn_id ` set fs"
  by (induction fs arbitrary: m0) auto

lemma dom_nodePositions: "dom (nodePositions fs) = fn_id ` set fs"
  by (simp add: nodePositions_def dom_nodePositions_fold)

lemma nodePositions_fold_in_set:
  "fold (\<lambda>n m. m(fn_id n \<mapsto> (jadd (fst (fn_position n)) (Fin (NODE_WIDTH / 2)), snd (fn_position n)))) fs m0 i = Some p
   \<Longrightarrow> m0 i = Some p
     \<or> (\<exists>f \<in> set fs. fn_id f = i \<and> p = (jadd (fst (fn_position f)) (Fin (NODE_WIDTH / 2)), snd (fn_position f)))"
proof (induction fs arbitrary: m0)
  case Nil
  then show ?case by simp
next
  case (Cons f fs)
  from Cons.prems have "fold (\<lambda>n m. m(fn_id n \<mapsto> (jadd (fst (fn_position n)) (Fin (NODE_WIDTH / 2)), snd (fn_position n)))) fs
      (m0(fn_id f \<mapsto> (jadd (fst (fn_position f)) (Fin (NODE_WIDTH / 2)), snd (fn_position f)))) i = Some p"
    by (simp only: fold_simps)
  from Cons.IH[OF this] show ?case by (auto split: if_splits)
qed

lemma nodePositions_in_set:
  "nodePositions fs i = Some p \<Longrightarrow>
     \<exists>f \<in> set fs. fn_id f = i \<and> p = (jadd (fst (fn_position f)) (Fin (NODE_WIDTH / 2)), snd (fn_position f))"
  using nodePositions_fold_in_set[of fs Map.empty i p] by (simp add: nodePositions_def)

lemma flowNodes_cover: "n \<in> set ns \<Longrightarrow> tn_id n \<in> fn_id ` set (flowNodes ns)"
proof (cases "hasExplicitPositions ns")
  case True
  assume "n \<in> set ns"
  with True show ?thesis by (force simp add: flowNodes_def explicitFlowNodes_def)
next
  case False
  assume "n \<in> set ns"
  from auto_node_exists[OF this] False show ?thesis by (force simp add: flowNodes_def)
qed

lemma sources_have_positions:
  "p \<in> set (edgePairs ns) \<Longrightarrow> nodePositions (flowNodes ns) (fst p) \<noteq> None"
proof -
  assume "p \<in> set (edgePairs ns)"
  then have "fst p \<in> tn_id ` set ns" by (rule edgePairs_sources)
  then have "fst p \<in> dom (nodePositions (flowNodes ns))"
    using flowNodes_cover by (auto simp add: dom_nodePositions)
  then show ?thesis by auto
qed

subsection \<open>The trunks\<close>

text \<open>The step of the loop that fills \<^verbatim>\<open>verticalTrunks\<close>.\<close>

definition trunkStep ::
  "(string \<rightharpoonup> jsnum \<times> jsnum) \<Rightarrow> string \<times> (jsnum \<times> jsnum) list \<Rightarrow>
     (string \<times> (jsnum \<times> jsnum)) list \<Rightarrow> (string \<times> (jsnum \<times> jsnum)) list" where
  "trunkStep positions = (\<lambda>(targetId, sources) trunks.
             if length sources > 1 then
               (case positions targetId of
                  None \<Rightarrow> trunks
                | Some targetPos \<Rightarrow>
                    AList.update targetId
                      (fst targetPos, jhalf (jadd (mathMin (map snd sources)) (snd targetPos)))
                      trunks)
             else trunks)"

lemma trunkStep_other: "fst g \<noteq> t \<Longrightarrow> map_of (trunkStep positions g trunks) t = map_of trunks t"
  by (cases g) (simp add: trunkStep_def AList.update_conv' split: option.splits)

lemma trunkStep_fold_other:
  "t \<notin> fst ` set groups \<Longrightarrow> map_of (fold (trunkStep positions) groups trunks) t = map_of trunks t"
proof (induction groups arbitrary: trunks)
  case Nil
  then show ?case by simp
next
  case (Cons g groups)
  then have "fst g \<noteq> t" "t \<notin> fst ` set groups" by auto
  with Cons.IH[of "trunkStep positions g trunks"] trunkStep_other[of g t positions trunks]
  show ?case by simp
qed

lemma map_of_trunk_fold:
  "distinct (map fst groups) \<Longrightarrow>
   map_of (fold (trunkStep positions) groups trunks) t =
     (case map_of groups t of
        None \<Rightarrow> map_of trunks t
      | Some sources \<Rightarrow>
          if 1 < length sources then
            (case positions t of
               None \<Rightarrow> map_of trunks t
             | Some targetPos \<Rightarrow>
                 Some (fst targetPos, jhalf (jadd (mathMin (map snd sources)) (snd targetPos))))
          else map_of trunks t)"
proof (induction groups arbitrary: trunks)
  case Nil
  then show ?case by simp
next
  case (Cons g groups)
  obtain k sources where g: "g = (k, sources)" by (cases g)
  show ?case
  proof (cases "k = t")
    case True
    with Cons.prems g have "t \<notin> fst ` set groups" by auto
    from trunkStep_fold_other[OF this, of positions "trunkStep positions g trunks"] g True
    show ?thesis by (simp add: trunkStep_def AList.update_conv' split: option.splits)
  next
    case False
    with g have "map_of (trunkStep positions g trunks) t = map_of trunks t"
      by (simp add: trunkStep_other)
    with Cons g False show ?thesis by (simp split: option.splits)
  qed
qed

lemma trunksOf_fold: "trunksOf groups positions = fold (trunkStep positions) groups []"
  by (simp add: trunksOf_def trunkStep_def)

lemma trunkStep_distinct: "distinct (map fst trunks) \<Longrightarrow> distinct (map fst (trunkStep positions g trunks))"
  by (cases g) (simp add: trunkStep_def AList.distinct_update split: option.splits)

lemma trunksOf_distinct: "distinct (map fst (trunksOf groups positions))"
  unfolding trunksOf_fold
  by (rule fold_preserves[where P = "\<lambda>s. distinct (map fst s)"]) (simp_all add: trunkStep_distinct)

text \<open>The edges that end in a target, and the bottoms of their sources.\<close>

definition incomingEdges :: "TreeNodeData list \<Rightarrow> string \<Rightarrow> FlowEdge list" where
  "incomingEdges treeNodes t = filter (\<lambda>e. fe_target e = t) (flowEdges treeNodes)"

definition sourceBottoms :: "TreeNodeData list \<Rightarrow> string \<Rightarrow> jsnum list" where
  "sourceBottoms treeNodes t =
     List.map_filter
       (\<lambda>e. map_option (\<lambda>sourcePos. jadd (snd sourcePos) (Fin NODE_HEIGHT))
               (nodePositions (flowNodes treeNodes) (fe_source e)))
       (incomingEdges treeNodes t)"

lemma incomingEdges_pairs:
  "incomingEdges ns t =
     map (\<lambda>(s, c). \<lparr>fe_id = s @ ''-'' @ c, fe_source = s, fe_sourceHandle = ''source-'' @ c,
                     fe_target = c, fe_stroke = colorOf ns c\<rparr>)
       (filter (\<lambda>p. snd p = t) (edgePairs ns))"
  by (simp add: incomingEdges_def flowEdges_pairs filter_map comp_def case_prod_beta)

lemma map_filter_all_some:
  "(\<And>x. x \<in> set xs \<Longrightarrow> f x = Some (g x)) \<Longrightarrow> List.map_filter f xs = map g xs"
  by (induction xs) (simp_all add: List.map_filter_simps)

lemma sourceBottoms_pairs:
  "sourceBottoms ns t =
     map (\<lambda>p. snd (sourceEntry (nodePositions (flowNodes ns)) (fst p))) (filter (\<lambda>p. snd p = t) (edgePairs ns))"
proof -
  let ?pos = "nodePositions (flowNodes ns)"
  let ?mk = "\<lambda>(s, c). \<lparr>fe_id = s @ ''-'' @ c, fe_source = s, fe_sourceHandle = ''source-'' @ c,
                     fe_target = c, fe_stroke = colorOf ns c\<rparr>"
  have "List.map_filter (\<lambda>e. map_option (\<lambda>sourcePos. jadd (snd sourcePos) (Fin NODE_HEIGHT)) (?pos (fe_source e)))
          (map ?mk (filter (\<lambda>p. snd p = t) (edgePairs ns)))
      = map (\<lambda>e. snd (sourceEntry ?pos (fe_source e))) (map ?mk (filter (\<lambda>p. snd p = t) (edgePairs ns)))"
  proof (rule map_filter_all_some)
    fix e assume "e \<in> set (map ?mk (filter (\<lambda>p. snd p = t) (edgePairs ns)))"
    then obtain p where p: "p \<in> set (edgePairs ns)" "e = ?mk p" by auto
    from sources_have_positions[OF p(1)] obtain sp where "?pos (fst p) = Some sp" by auto
    with p(2) show "map_option (\<lambda>sourcePos. jadd (snd sourcePos) (Fin NODE_HEIGHT)) (?pos (fe_source e))
        = Some (snd (sourceEntry ?pos (fe_source e)))"
      by (cases p) (simp add: sourceEntry_def)
  qed
  then show ?thesis
    by (simp add: sourceBottoms_def incomingEdges_pairs comp_def case_prod_beta)
qed

lemma edgesByTarget_lookup:
  "map_of (edgesByTarget ns (nodePositions (flowNodes ns))) t =
     (if filter (\<lambda>p. snd p = t) (edgePairs ns) = [] then None
      else Some (map (\<lambda>p. sourceEntry (nodePositions (flowNodes ns)) (fst p))
                   (filter (\<lambda>p. snd p = t) (edgePairs ns))))"
proof -
  have "filter (\<lambda>p. nodePositions (flowNodes ns) (fst p) \<noteq> None) (edgePairs ns) = edgePairs ns"
    using sources_have_positions by (simp add: filter_id_conv)
  then show ?thesis
    by (simp add: edgesByTarget_pairs map_of_fold_pushTo)
qed

lemma edgesByTarget_distinct: "distinct (map fst (edgesByTarget ns positions))"
  unfolding edgesByTarget_pairs by (rule distinct_fold_pushTo) simp

text \<open>
  Claim C5. A target that more than one edge enters and that has a position gets one
  trunk entry, exactly one: its x is the x of the centre of the target, its y is the
  midpoint between the least bottom y among the sources of its incoming edges and the top
  y of the target. Every incoming edge contributes its source, none is skipped. A target
  that exactly one edge enters gets no trunk.
\<close>

theorem trunk_merging:
  "(1 < length (incomingEdges treeNodes t)
      \<and> nodePositions (flowNodes treeNodes) t = Some (tx, ty)
     \<longrightarrow> map_of (verticalTrunks (lo_routingData (calculateTreeLayout treeNodes))) t
           = Some (tx, jhalf (jadd (mathMin (sourceBottoms treeNodes t)) ty))
         \<and> length (filter (\<lambda>p. fst p = t) (verticalTrunks (lo_routingData (calculateTreeLayout treeNodes)))) = 1
         \<and> length (sourceBottoms treeNodes t) = length (incomingEdges treeNodes t)
         \<and> (\<exists>f \<in> set (lo_nodes (calculateTreeLayout treeNodes)).
               fn_id f = t \<and> tx = jadd (fst (fn_position f)) (Fin (NODE_WIDTH / 2))
             \<and> ty = snd (fn_position f)))
   \<and> (length (incomingEdges treeNodes t) = 1
     \<longrightarrow> map_of (verticalTrunks (lo_routingData (calculateTreeLayout treeNodes))) t = None)"
proof -
  let ?pos = "nodePositions (flowNodes treeNodes)"
  let ?groups = "edgesByTarget treeNodes ?pos"
  let ?pairs = "filter (\<lambda>p. snd p = t) (edgePairs treeNodes)"
  have vt: "verticalTrunks (lo_routingData (calculateTreeLayout treeNodes)) = trunksOf ?groups ?pos"
    by (simp add: calculateTreeLayout_def Let_def)
  have ln: "lo_nodes (calculateTreeLayout treeNodes) = flowNodes treeNodes"
    by (simp add: calculateTreeLayout_def Let_def)
  have len: "length (incomingEdges treeNodes t) = length ?pairs"
    by (simp add: incomingEdges_pairs)
  have sb: "map snd (map (\<lambda>p. sourceEntry ?pos (fst p)) ?pairs) = sourceBottoms treeNodes t"
    by (simp add: sourceBottoms_pairs comp_def)
  have look: "map_of (trunksOf ?groups ?pos) t =
     (case map_of ?groups t of
        None \<Rightarrow> None
      | Some sources \<Rightarrow>
          if 1 < length sources then
            (case ?pos t of
               None \<Rightarrow> None
             | Some targetPos \<Rightarrow>
                 Some (fst targetPos, jhalf (jadd (mathMin (map snd sources)) (snd targetPos))))
          else None)"
    unfolding trunksOf_fold
    using map_of_trunk_fold[OF edgesByTarget_distinct, where positions = ?pos and trunks = "[]" and t = t]
    by (simp split: option.splits)
  show ?thesis
  proof (intro conjI impI)
    assume a: "1 < length (incomingEdges treeNodes t) \<and> ?pos t = Some (tx, ty)"
    then have ne: "?pairs \<noteq> []" using len by auto
    from a len have l2: "1 < length (map (\<lambda>p. sourceEntry ?pos (fst p)) ?pairs)" by simp
    have m: "map_of (trunksOf ?groups ?pos) t = Some (tx, jhalf (jadd (mathMin (sourceBottoms treeNodes t)) ty))"
      using a ne l2 by (simp add: look edgesByTarget_lookup sb del: length_map map_map)
    then show "map_of (verticalTrunks (lo_routingData (calculateTreeLayout treeNodes))) t
           = Some (tx, jhalf (jadd (mathMin (sourceBottoms treeNodes t)) ty))"
      by (simp only: vt)
    from distinct_single_entry[OF trunksOf_distinct m]
    show "length (filter (\<lambda>p. fst p = t) (verticalTrunks (lo_routingData (calculateTreeLayout treeNodes)))) = 1"
      by (simp only: vt)
    show "length (sourceBottoms treeNodes t) = length (incomingEdges treeNodes t)"
      by (simp add: sourceBottoms_pairs len)
    from a nodePositions_in_set[of "flowNodes treeNodes" t "(tx, ty)"]
    show "\<exists>f \<in> set (lo_nodes (calculateTreeLayout treeNodes)).
               fn_id f = t \<and> tx = jadd (fst (fn_position f)) (Fin (NODE_WIDTH / 2))
             \<and> ty = snd (fn_position f)"
      by (simp only: ln) auto
  next
    assume a: "length (incomingEdges treeNodes t) = 1"
    then have ne: "?pairs \<noteq> []" using len by auto
    from a len have l1: "length (map (\<lambda>p. sourceEntry ?pos (fst p)) ?pairs) = 1" by simp
    have "map_of (trunksOf ?groups ?pos) t = None"
      using ne l1 by (simp add: look edgesByTarget_lookup del: length_map map_map)
    then show "map_of (verticalTrunks (lo_routingData (calculateTreeLayout treeNodes))) t = None"
      by (simp only: vt)
  qed
qed

theorem trunk_merging_witness:
  "map_of (verticalTrunks (lo_routingData (calculateTreeLayout exampleInput))) ''3''
     = Some (Fin 75, Fin 200)
   \<and> length (filter (\<lambda>p. fst p = ''3'') (verticalTrunks (lo_routingData (calculateTreeLayout exampleInput)))) = 1
   \<and> map_of (verticalTrunks (lo_routingData (calculateTreeLayout exampleInput))) ''1'' = None"
proof -
  have h1: "1 < length (incomingEdges exampleInput ''3'')
      \<and> nodePositions (flowNodes exampleInput) ''3'' = Some (Fin 75, Fin 240)"
    by code_simp
  have h2: "length (incomingEdges exampleInput ''1'') = 1"
    by code_simp
  have v: "jhalf (jadd (mathMin (sourceBottoms exampleInput ''3'')) (Fin 240)) = Fin 200"
    by code_simp
  from trunk_merging[of exampleInput "''3''" "Fin 75" "Fin 240"] h1
  have a: "map_of (verticalTrunks (lo_routingData (calculateTreeLayout exampleInput))) ''3''
           = Some (Fin 75, jhalf (jadd (mathMin (sourceBottoms exampleInput ''3'')) (Fin 240)))"
    and b: "length (filter (\<lambda>p. fst p = ''3'') (verticalTrunks (lo_routingData (calculateTreeLayout exampleInput)))) = 1"
    by blast+
  from trunk_merging[of exampleInput "''1''"] h2
  have c: "map_of (verticalTrunks (lo_routingData (calculateTreeLayout exampleInput))) ''1'' = None"
    by blast
  from a b c show ?thesis unfolding v by blast
qed

subsection \<open>The channel table\<close>

lemma channels_fold_lookup:
  "map_of (fold (\<lambda>(key, es) channels. AList.update key (channelOfKey key) channels) groups acc) k
     = (if k \<in> fst ` set groups then Some (channelOfKey k) else map_of acc k)"
proof (induction groups arbitrary: acc)
  case Nil
  then show ?case by simp
next
  case (Cons g groups)
  obtain key es where g: "g = (key, es)" by (cases g)
  show ?case by (simp add: g Cons.IH AList.update_conv')
qed

lemma channelsOf_lookup:
  "map_of (channelsOf groups) k = (if k \<in> fst ` set groups then Some (channelOfKey k) else None)"
  by (simp add: channelsOf_def channels_fold_lookup)

lemma keys_pushTo: "fst ` set (pushTo k e g) = insert k (fst ` set g)"
  by (simp add: pushTo_def AList.dom_update)

lemma keys_fold_pushTo:
  "fst ` set (fold (\<lambda>x. pushTo (kf x) (vf x)) xs g) = fst ` set g \<union> kf ` set xs"
  by (induction xs arbitrary: g) (auto simp add: keys_pushTo)

text \<open>What an edge files under which key, when both its ends have a position.\<close>

definition layerEntry ::
  "(string \<rightharpoonup> jsnum \<times> jsnum) \<Rightarrow> string \<times> string \<Rightarrow> (string \<times> (jsnum \<times> jsnum \<times> string)) option" where
  "layerEntry positions p =
     (case positions (fst p) of
        None \<Rightarrow> None
      | Some sourcePos \<Rightarrow>
          (case positions (snd p) of
             None \<Rightarrow> None
           | Some targetPos \<Rightarrow>
               Some (layerKey (jadd (snd sourcePos) (Fin NODE_HEIGHT)) (snd targetPos),
                     (fst sourcePos, fst targetPos, snd p))))"

definition edgeKey :: "(string \<rightharpoonup> jsnum \<times> jsnum) \<Rightarrow> string \<times> string \<Rightarrow> string option" where
  "edgeKey positions p = map_option fst (layerEntry positions p)"

lemma edgesByLayers_inner:
  "(case positions s of
      None \<Rightarrow> g
    | Some sourcePos \<Rightarrow>
        fold (\<lambda>childId groups.
                case positions childId of
                  None \<Rightarrow> groups
                | Some targetPos \<Rightarrow>
                    pushTo (layerKey (jadd (snd sourcePos) (Fin NODE_HEIGHT)) (snd targetPos))
                      (fst sourcePos, fst targetPos, childId) groups)
          cs g)
   = fold (\<lambda>x. pushTo (fst x) (snd x)) (List.map_filter (layerEntry positions) (map (\<lambda>c. (s, c)) cs)) g"
proof (cases "positions s")
  case None
  have "List.map_filter (layerEntry positions) (map (\<lambda>c. (s, c)) cs) = []"
    by (induction cs) (simp_all add: List.map_filter_simps layerEntry_def None)
  with None show ?thesis by simp
next
  case (Some sourcePos)
  have "fold (\<lambda>childId groups.
                case positions childId of
                  None \<Rightarrow> groups
                | Some targetPos \<Rightarrow>
                    pushTo (layerKey (jadd (snd sourcePos) (Fin NODE_HEIGHT)) (snd targetPos))
                      (fst sourcePos, fst targetPos, childId) groups)
          cs g
     = fold (\<lambda>x. pushTo (fst x) (snd x)) (List.map_filter (layerEntry positions) (map (\<lambda>c. (s, c)) cs)) g"
  proof (induction cs arbitrary: g)
    case Nil
    then show ?case by (simp add: List.map_filter_simps)
  next
    case (Cons c cs)
    show ?case
      by (cases "positions c") (simp_all add: Cons.IH List.map_filter_simps layerEntry_def Some)
  qed
  with Some show ?thesis by simp
qed

lemma map_filter_append: "List.map_filter f (xs @ ys) = List.map_filter f xs @ List.map_filter f ys"
  by (simp add: List.map_filter_def)

lemma edgesByLayers_fold:
  "fold (\<lambda>node groups.
             case positions (tn_id node) of
               None \<Rightarrow> groups
             | Some sourcePos \<Rightarrow>
                 fold (\<lambda>childId groups.
                         case positions childId of
                           None \<Rightarrow> groups
                         | Some targetPos \<Rightarrow>
                             pushTo (layerKey (jadd (snd sourcePos) (Fin NODE_HEIGHT)) (snd targetPos))
                               (fst sourcePos, fst targetPos, childId) groups)
                   (tn_children node) groups)
       ns g
   = fold (\<lambda>x. pushTo (fst x) (snd x)) (List.map_filter (layerEntry positions) (edgePairs ns)) g"
proof (induction ns arbitrary: g)
  case Nil
  then show ?case by (simp add: edgePairs_def List.map_filter_simps)
next
  case (Cons node ns)
  have ep: "edgePairs (node # ns) = map (\<lambda>childId. (tn_id node, childId)) (tn_children node) @ edgePairs ns"
    by (simp add: edgePairs_def)
  show ?case
    unfolding fold_simps Cons.IH ep map_filter_append fold_append o_apply
    by (simp only: edgesByLayers_inner)
qed

lemma edgesByLayers_keys:
  "fst ` set (edgesByLayers ns positions) = {k. \<exists>p \<in> set (edgePairs ns). edgeKey positions p = Some k}"
proof -
  have "fst ` set (edgesByLayers ns positions)
      = fst ` set (List.map_filter (layerEntry positions) (edgePairs ns))"
    unfolding edgesByLayers_def edgesByLayers_fold by (simp add: keys_fold_pushTo)
  also have "\<dots> = {k. \<exists>p \<in> set (edgePairs ns). edgeKey positions p = Some k}"
    by (force simp add: List.map_filter_def edgeKey_def)
  finally show ?thesis .
qed

lemma floor_of_int_half: "\<lfloor>rat_of_int k + 1 / 2\<rfloor> = k"
  by (rule floor_unique) simp_all

lemma roundedString_mathRound: "roundedString (mathRound v) = roundedString v"
  by (cases v) (simp_all add: floor_of_int_half)

lemma layerKey_rounded:
  "mathRound a = mathRound a' \<Longrightarrow> mathRound b = mathRound b' \<Longrightarrow> layerKey a b = layerKey a' b'"
  by (metis layerKey_def roundedString_mathRound)

lemma is_digit_not_minus: "c \<in> set (int_digits n) \<Longrightarrow> 0 \<le> n \<Longrightarrow> c \<noteq> CHR ''-''"
  using int_digits_digits is_digit_not_special by blast

lemma channel_midpoint:
  assumes "0 \<le> \<lfloor>a + 1 / 2\<rfloor>" "0 \<le> \<lfloor>b + 1 / 2\<rfloor>"
  shows "channelOfKey (layerKey (Fin a) (Fin b)) = jhalf (jadd (mathRound (Fin a)) (mathRound (Fin b)))"
proof -
  let ?m = "\<lfloor>a + 1 / 2\<rfloor>" and ?n = "\<lfloor>b + 1 / 2\<rfloor>"
  have k: "layerKey (Fin a) (Fin b) = int_digits ?m @ CHR ''-'' # int_digits ?n"
    using assms by (simp add: layerKey_def intToString_def)
  have "CHR ''-'' \<notin> set (int_digits ?m)" "CHR ''-'' \<notin> set (int_digits ?n)"
    using is_digit_not_minus assms by blast+
  then have sp: "split CHR ''-'' (int_digits ?m @ CHR ''-'' # int_digits ?n) = [int_digits ?m, int_digits ?n]"
    by (simp add: split_at_first_separator split_no_separator)
  have pm: "parseInt (int_digits ?m) = Fin (of_int ?m)" using assms(1) by (rule parseInt_int_digits)
  have pn: "parseInt (int_digits ?n) = Fin (of_int ?n)" using assms(2) by (rule parseInt_int_digits)
  show ?thesis
    unfolding channelOfKey_def k sp
    by (simp add: Let_def nth_opt_def parseIntOpt_def pm pn)
qed

text \<open>
  The channel of an edge of the layout: the entry of the table under the key of the edge.
\<close>

definition channelOfEdge :: "TreeNodeData list \<Rightarrow> string \<times> string \<Rightarrow> jsnum option" where
  "channelOfEdge treeNodes p =
     (case edgeKey (nodePositions (flowNodes treeNodes)) p of
        None \<Rightarrow> None
      | Some key \<Rightarrow> map_of (horizontalChannels (lo_routingData (calculateTreeLayout treeNodes))) key)"

lemma channel_shared_by_key:
  assumes "p \<in> set (edgePairs ns)" "q \<in> set (edgePairs ns)"
    and "edgeKey (nodePositions (flowNodes ns)) p = Some k"
    and "edgeKey (nodePositions (flowNodes ns)) q = Some k"
  shows "channelOfEdge ns p = Some (channelOfKey k) \<and> channelOfEdge ns q = Some (channelOfKey k)"
proof -
  have hc: "horizontalChannels (lo_routingData (calculateTreeLayout ns))
      = channelsOf (edgesByLayers ns (nodePositions (flowNodes ns)))"
    by (simp add: calculateTreeLayout_def Let_def)
  have "k \<in> fst ` set (edgesByLayers ns (nodePositions (flowNodes ns)))"
    using assms(1,3) by (auto simp add: edgesByLayers_keys)
  then show ?thesis
    using assms(3,4) by (simp add: channelOfEdge_def hc channelsOf_lookup)
qed

definition negativeYInput :: "TreeNodeData list" where
  "negativeYInput = parseCSV ''0,Root,1,0;-200\<newline>1,Kid,,300;0''"

text \<open>
  Claim C4 holds as far as the lemmas above go: edges with the same rounded pair share
  the one entry of the table under their key (\<open>channel_shared_by_key\<close>), and for rounded
  values that are not negative the entry is the midpoint of the two (\<open>channel_midpoint\<close>).
  It fails where a rounded value is negative. The key joins the two values with a hyphen
  and is split at the hyphens again, so a minus sign is taken for a separator: on a
  source bottom of -160 and a target top of 0 the key \<^verbatim>\<open>-160-0\<close> splits into an empty
  piece, 160 and 0, the empty piece parses to not-a-number, and the channel is
  not-a-number instead of the midpoint -80. The path of the edge then runs through it.
\<close>

theorem negative_layer_has_no_channel:
  "negativeYInput =
     [\<lparr>tn_id = ''0'', tn_label = ''Root'', tn_children = [''1''], tn_position = Some (Fin 0, Fin (- 200))\<rparr>,
      \<lparr>tn_id = ''1'', tn_label = ''Kid'', tn_children = [], tn_position = Some (Fin 300, Fin 0)\<rparr>]
   \<and> layerKey (Fin (- 160)) (Fin 0) = ''-160-0''
   \<and> split CHR ''-'' ''-160-0'' = ['''', ''160'', ''0'']
   \<and> horizontalChannels (lo_routingData (calculateTreeLayout negativeYInput)) = [(''-160-0'', NaN)]
   \<and> jhalf (jadd (mathRound (Fin (- 160))) (mathRound (Fin 0))) = Fin (- 80)
   \<and> calculateMergedPath (Fin 75) (Fin (- 160)) (Fin 375) (Fin 0) ''1''
        (lo_routingData (calculateTreeLayout negativeYInput))
      = [(Fin 75, Fin (- 160)), (Fin 75, NaN), (Fin 375, NaN), (Fin 375, Fin 0)]"
  by code_simp

lemma example_channels:
  "horizontalChannels (lo_routingData (calculateTreeLayout exampleInput))
     = [(''40-120'', Fin 80), (''160-240'', Fin 200)]"
  by code_simp

section \<open>The round trip through the record format\<close>

subsection \<open>What the parser guarantees\<close>

definition wfField :: "string \<Rightarrow> bool" where
  "wfField s = (trimmed s \<and> CHR '','' \<notin> set s \<and> CHR 0x0A \<notin> set s)"

definition wfChild :: "string \<Rightarrow> bool" where
  "wfChild c = (c \<noteq> [] \<and> trimmed c \<and> CHR '','' \<notin> set c \<and> CHR '';'' \<notin> set c \<and> CHR 0x0A \<notin> set c)"

definition wfNode :: "TreeNodeData \<Rightarrow> bool" where
  "wfNode n = (wfField (tn_id n) \<and> wfField (tn_label n) \<and> list_all wfChild (tn_children n)
     \<and> (case tn_position n of None \<Rightarrow> True | Some (x, y) \<Rightarrow> \<not> isNaN x \<and> \<not> isNaN y))"

lemma wfField_trim: "CHR '','' \<notin> set s \<Longrightarrow> CHR 0x0A \<notin> set s \<Longrightarrow> wfField (trim s)"
  using set_trim[of s] by (auto simp add: wfField_def trimmed_trim)

lemma nth_split_comma:
  assumes "i < length (split CHR '','' line)" "CHR 0x0A \<notin> set line"
  shows "CHR '','' \<notin> set (split CHR '','' line ! i) \<and> CHR 0x0A \<notin> set (split CHR '','' line ! i)"
proof -
  from assms(1) have "split CHR '','' line ! i \<in> set (split CHR '','' line)" by simp
  from split_elements[OF this] assms(2) show ?thesis by auto
qed

lemma wfChild_tokens:
  assumes "CHR '','' \<notin> set s" "CHR 0x0A \<notin> set s"
  shows "list_all wfChild (filter (\<lambda>c. c \<noteq> []) (map trim (split CHR '';'' s)))"
proof -
  have "wfChild (trim p)" if "p \<in> set (split CHR '';'' s)" "trim p \<noteq> []" for p
  proof -
    from split_elements[OF that(1)] have "set p \<subseteq> set s" "CHR '';'' \<notin> set p" by auto
    with set_trim[of p] assms that(2) show ?thesis
      by (auto simp add: wfChild_def trimmed_trim)
  qed
  then show ?thesis by (auto simp add: list_all_iff)
qed

lemma parseLine_wf:
  assumes "parseLine line = Some n" "CHR 0x0A \<notin> set line"
  shows "wfNode n"
proof -
  let ?parts = "split CHR '','' line"
  from assms(1) have len: "2 \<le> length ?parts"
    by (auto simp add: parseLine_def Let_def split: if_splits)
  from len have l0: "0 < length ?parts" and l1: "1 < length ?parts" by auto
  have p0: "wfField (trim (?parts ! 0))"
    using nth_split_comma[OF l0 assms(2)] by (intro wfField_trim) blast+
  have p1: "wfField (trim (?parts ! 1))"
    using nth_split_comma[OF l1 assms(2)] by (intro wfField_trim) blast+
  define childrenStr where "childrenStr = (case nth_opt ?parts 2 of None \<Rightarrow> [] | Some p \<Rightarrow> trim p)"
  have cs: "CHR '','' \<notin> set childrenStr \<and> CHR 0x0A \<notin> set childrenStr"
  proof (cases "2 < length ?parts")
    case True
    from nth_split_comma[OF True assms(2)] set_trim[of "?parts ! 2"] True show ?thesis
      by (auto simp add: childrenStr_def nth_opt_def)
  next
    case False
    then show ?thesis by (simp add: childrenStr_def nth_opt_def)
  qed
  have ch: "list_all wfChild (if childrenStr \<noteq> []
                            then filter (\<lambda>c. c \<noteq> []) (map trim (split CHR '';'' childrenStr))
                            else [])"
    using wfChild_tokens[of childrenStr] cs by simp
  from assms(1) len have
    "tn_id n = trim (?parts ! 0)" "tn_label n = trim (?parts ! 1)"
    "tn_children n = (if childrenStr \<noteq> []
                            then filter (\<lambda>c. c \<noteq> []) (map trim (split CHR '';'' childrenStr))
                            else [])"
    "case tn_position n of None \<Rightarrow> True | Some (x, y) \<Rightarrow> \<not> isNaN x \<and> \<not> isNaN y"
    by (auto simp add: parseLine_def Let_def childrenStr_def split: if_splits option.splits)
  with p0 p1 ch show ?thesis by (simp add: wfNode_def)
qed

lemma parseCSV_wf: "n \<in> set (parseCSV content) \<Longrightarrow> wfNode n"
proof -
  assume "n \<in> set (parseCSV content)"
  then obtain line where l: "line \<in> set (split (CHR 0x0A) (trim content))" "parseLine line = Some n"
    by (auto simp add: parseCSV_def List.map_filter_def)
  from split_elements[OF l(1)] have "CHR 0x0A \<notin> set line" by simp
  with l(2) show ?thesis by (rule parseLine_wf)
qed

subsection \<open>Reading back one line\<close>

text \<open>The line that the serializer writes for a node.\<close>

definition lineOf :: "string \<Rightarrow> string \<Rightarrow> string list \<Rightarrow> jsnum \<Rightarrow> jsnum \<Rightarrow> string" where
  "lineOf i l cs x y =
     i @ '','' @ l @ '','' @ join '';'' cs @ '','' @ roundedString x @ '';'' @ roundedString y"

lemma plain_simps: "plain c \<Longrightarrow> \<not> is_space c \<and> c \<noteq> CHR '','' \<and> c \<noteq> CHR '';'' \<and> c \<noteq> CHR 0x0A"
  by (auto simp add: plain_def is_space_def)

lemma roundedString_chars:
  "CHR '','' \<notin> set (roundedString v)" "CHR '';'' \<notin> set (roundedString v)"
  "CHR 0x0A \<notin> set (roundedString v)"
  using roundedString_plain[of _ v] plain_simps by blast+

lemma roundedString_ends:
  "\<not> is_space (hd (roundedString v))" "\<not> is_space (last (roundedString v))"
  using roundedString_nonempty[of v] roundedString_plain[of _ v] plain_simps
  by (metis hd_in_set, metis last_in_set)

lemma join_children_chars:
  assumes "list_all wfChild cs"
  shows "CHR '','' \<notin> set (join '';'' cs)" "CHR 0x0A \<notin> set (join '';'' cs)"
  using assms set_join[of "'';''" cs] by (auto simp add: list_all_iff wfChild_def)

lemma trimmed_join_children:
  assumes "list_all wfChild cs"
  shows "trimmed (join '';'' cs)"
  using assms
proof (induction cs rule: induct_list012)
  case 1
  then show ?case by (simp add: trimmed_def)
next
  case (2 x)
  then show ?case by (simp add: wfChild_def)
next
  case (3 x y zs)
  then have t: "trimmed (join '';'' (y # zs))" and x: "wfChild x" and y: "wfChild y" by simp_all
  have ne: "join '';'' (y # zs) \<noteq> []" using y by (cases zs) (auto simp add: wfChild_def)
  with t have "\<not> is_space (last (join '';'' (y # zs)))" by (simp add: trimmed_def)
  with x ne show ?case by (auto simp add: trimmed_def wfChild_def)
qed

lemma children_read_back:
  assumes "list_all wfChild cs"
  shows "(if trim (join '';'' cs) \<noteq> []
          then filter (\<lambda>c. c \<noteq> []) (map trim (split CHR '';'' (trim (join '';'' cs))))
          else []) = cs"
proof (cases cs)
  case Nil
  then show ?thesis by (simp add: trim_def)
next
  case (Cons c rest)
  have t: "trim (join '';'' cs) = join '';'' cs"
    using trimmed_join_children[OF assms] by (rule trim_trimmed)
  from assms Cons have ne: "join '';'' cs \<noteq> []" by (cases rest) (auto simp add: wfChild_def)
  have sp: "split CHR '';'' (join '';'' cs) = cs"
    using assms Cons split_join[of cs "CHR '';''"] by (auto simp add: list_all_iff wfChild_def)
  have tr: "map trim cs = cs"
    using assms by (auto simp add: list_all_iff wfChild_def trim_trimmed intro: map_idI)
  have fl: "filter (\<lambda>c. c \<noteq> []) cs = cs"
    using assms by (auto simp add: list_all_iff wfChild_def filter_id_conv)
  show ?thesis by (simp add: t ne sp tr fl)
qed

lemma position_read_back:
  assumes "\<not> isNaN x" "\<not> isNaN y"
  shows "trim (roundedString x @ CHR '';'' # roundedString y) = roundedString x @ CHR '';'' # roundedString y"
    and "split CHR '';'' (roundedString x @ CHR '';'' # roundedString y) = [roundedString x, roundedString y]"
    and "parseFloat (roundedString x) = mathRound x" and "parseFloat (roundedString y) = mathRound y"
    and "\<not> isNaN (mathRound x)" and "\<not> isNaN (mathRound y)"
proof -
  have "trimmed (roundedString x @ '';'' @ roundedString y)"
    using roundedString_nonempty roundedString_ends by (intro trimmed_append) auto
  then have "trim (roundedString x @ '';'' @ roundedString y) = roundedString x @ '';'' @ roundedString y"
    by (rule trim_trimmed)
  then show "trim (roundedString x @ CHR '';'' # roundedString y) = roundedString x @ CHR '';'' # roundedString y"
    by simp
  show "split CHR '';'' (roundedString x @ CHR '';'' # roundedString y) = [roundedString x, roundedString y]"
    using split_at_first_separator[of "CHR '';''" "roundedString x" "roundedString y"]
      split_no_separator[of "CHR '';''" "roundedString y"] roundedString_chars(2)
    by simp
  show "parseFloat (roundedString x) = mathRound x" "parseFloat (roundedString y) = mathRound y"
    using assms by (simp_all add: parseFloat_roundedString)
  show "\<not> isNaN (mathRound x)" using assms(1) by (cases x) simp_all
  show "\<not> isNaN (mathRound y)" using assms(2) by (cases y) simp_all
qed

lemma split_line:
  assumes "CHR '','' \<notin> set i" "CHR '','' \<notin> set l" "list_all wfChild cs"
  shows "split CHR '','' (lineOf i l cs x y)
          = [i, l, join '';'' cs, roundedString x @ '';'' @ roundedString y]"
proof -
  let ?p = "roundedString x @ CHR '';'' # roundedString y"
  have 4: "split CHR '','' ?p = [?p]"
    using roundedString_chars(1) by (intro split_no_separator) auto
  have 3: "split CHR '','' (join '';'' cs @ CHR '','' # ?p) = join '';'' cs # split CHR '','' ?p"
    using join_children_chars(1)[OF assms(3)] by (rule split_at_first_separator)
  have 2: "split CHR '','' (l @ CHR '','' # join '';'' cs @ CHR '','' # ?p)
        = l # split CHR '','' (join '';'' cs @ CHR '','' # ?p)"
    using assms(2) by (rule split_at_first_separator)
  have 1: "split CHR '','' (i @ CHR '','' # l @ CHR '','' # join '';'' cs @ CHR '','' # ?p)
        = i # split CHR '','' (l @ CHR '','' # join '';'' cs @ CHR '','' # ?p)"
    using assms(1) by (rule split_at_first_separator)
  show ?thesis by (simp add: lineOf_def 1 2 3 4)
qed

lemma parseLine_lineOf:
  assumes "wfField i" "wfField l" "list_all wfChild cs" "\<not> isNaN x" "\<not> isNaN y"
  shows "parseLine (lineOf i l cs x y)
          = Some \<lparr>tn_id = i, tn_label = l, tn_children = cs,
                  tn_position = Some (mathRound x, mathRound y)\<rparr>"
proof -
  have sp: "split CHR '','' (lineOf i l cs x y)
          = [i, l, join '';'' cs, roundedString x @ '';'' @ roundedString y]"
    using assms(1-3) by (intro split_line) (simp_all add: wfField_def)
  have ti: "trim i = i" "trim l = l" using assms(1,2) by (simp_all add: wfField_def trim_trimmed)
  note pr = position_read_back[OF assms(4,5)]
  have ne: "roundedString x @ '';'' @ roundedString y \<noteq> []" by simp
  show ?thesis
    unfolding parseLine_def sp
    by (simp add: Let_def nth_opt_def ti children_read_back[OF assms(3)] pr parseFloatOpt_def)
qed

subsection \<open>Reading back the whole text\<close>

lemma hd_join: "xs \<noteq> [] \<Longrightarrow> hd xs \<noteq> [] \<Longrightarrow> hd (join sep xs) = hd (hd xs)"
  by (cases xs) (simp_all add: join_Cons)

lemma join_nonempty: "xs \<noteq> [] \<Longrightarrow> last xs \<noteq> [] \<Longrightarrow> join sep xs \<noteq> []"
  by (induction sep xs rule: join.induct) auto

lemma last_join: "xs \<noteq> [] \<Longrightarrow> last xs \<noteq> [] \<Longrightarrow> last (join sep xs) = last (last xs)"
proof (induction sep xs rule: join.induct)
  case (1 sep)
  then show ?case by simp
next
  case (2 sep x)
  then show ?case by simp
next
  case (3 sep x y ys)
  then have "join sep (y # ys) \<noteq> []" by (intro join_nonempty) auto
  with 3 show ?case by simp
qed

lemma parseCSV_lines:
  assumes "ls \<noteq> []" "\<forall>l \<in> set ls. CHR 0x0A \<notin> set l"
    and "hd ls \<noteq> []" "\<not> is_space (hd (hd ls))"
    and "last ls \<noteq> []" "\<not> is_space (last (last ls))"
  shows "parseCSV (join [CHR 0x0A] ls) = List.map_filter parseLine ls"
proof -
  have "trimmed (join [CHR 0x0A] ls)"
    using assms by (simp add: trimmed_def hd_join last_join)
  then have "trim (join [CHR 0x0A] ls) = join [CHR 0x0A] ls" by (rule trim_trimmed)
  moreover have "split (CHR 0x0A) (join [CHR 0x0A] ls) = ls"
    using assms(1,2) by (rule split_join)
  ultimately show ?thesis by (simp add: parseCSV_def)
qed

lemma map_filter_map: "List.map_filter f (map g xs) = List.map_filter (\<lambda>x. f (g x)) xs"
  by (induction xs) (simp_all add: List.map_filter_simps split: option.splits)

lemma parseCSV_empty: "parseCSV [] = []"
  by code_simp

text \<open>The children of a node as the edge set gives them.\<close>

definition childrenFromEdges :: "FlowEdge list \<Rightarrow> string \<Rightarrow> string list" where
  "childrenFromEdges es i = map fe_target (filter (\<lambda>e. fe_source e = i) es)"

lemma serializeToCSV_lines:
  "serializeToCSV fs es =
     join [CHR 0x0A]
       (map (\<lambda>f. lineOf (fn_id f) (fn_label f) (childrenFromEdges es (fn_id f))
                    (fst (fn_position f)) (snd (fn_position f))) fs)"
proof -
  have "(case map_of (fold (\<lambda>edge m. pushTo (fe_source edge) (fe_target edge) m) es []) i of
           Some cs \<Rightarrow> join '';'' cs
         | None \<Rightarrow> [])
        = join '';'' (childrenFromEdges es i)" for i
    by (simp add: map_of_fold_pushTo childrenFromEdges_def)
  then show ?thesis
    by (simp add: serializeToCSV_def Let_def lineOf_def)
qed

lemma lineOf_shape:
  assumes "wfField i" "wfField l" "list_all wfChild cs"
  shows "CHR 0x0A \<notin> set (lineOf i l cs x y)"
    and "lineOf i l cs x y \<noteq> []"
    and "\<not> is_space (hd (lineOf i l cs x y))"
    and "\<not> is_space (last (lineOf i l cs x y))"
proof -
  show "CHR 0x0A \<notin> set (lineOf i l cs x y)"
    using assms join_children_chars(2)[OF assms(3)] roundedString_chars(3)
    by (auto simp add: lineOf_def wfField_def)
  show "lineOf i l cs x y \<noteq> []" by (simp add: lineOf_def)
  show "\<not> is_space (hd (lineOf i l cs x y))"
  proof (cases i)
    case Nil
    then show ?thesis by (simp add: lineOf_def is_space_def)
  next
    case (Cons c t)
    with assms(1) show ?thesis by (simp add: lineOf_def wfField_def trimmed_def)
  qed
  show "\<not> is_space (last (lineOf i l cs x y))"
    using roundedString_nonempty[of y] roundedString_ends(2)[of y] by (simp add: lineOf_def)
qed

lemma edge_targets_wf:
  assumes "\<forall>n \<in> set ns. wfNode n"
  shows "list_all wfChild (childrenFromEdges (flowEdges ns) i)"
proof -
  have "fe_target e \<in> \<Union> (set ` tn_children ` set ns)" if "e \<in> set (flowEdges ns)" for e
    using that by (auto simp add: flowEdges_def)
  with assms show ?thesis
    by (fastforce simp add: childrenFromEdges_def list_all_iff wfNode_def)
qed

text \<open>The node that the second parse gives for a node of the first parse.\<close>

definition readBack :: "FlowEdge list \<Rightarrow> TreeNodeData \<Rightarrow> TreeNodeData" where
  "readBack es n =
     \<lparr>tn_id = tn_id n, tn_label = tn_label n, tn_children = childrenFromEdges es (tn_id n),
      tn_position = map_option (\<lambda>(x, y). (mathRound x, mathRound y)) (tn_position n)\<rparr>"

lemma round_trip_nodes:
  assumes wf: "\<forall>n \<in> set ns. wfNode n" and ex: "hasExplicitPositions ns"
  shows "parseCSV (serializeToCSV (explicitFlowNodes ns) (flowEdges ns)) = map (readBack (flowEdges ns)) ns"
proof (cases "ns = []")
  case True
  then show ?thesis
    by (simp add: serializeToCSV_lines explicitFlowNodes_def parseCSV_empty)
next
  case False
  let ?es = "flowEdges ns"
  let ?line = "\<lambda>n. lineOf (tn_id n) (tn_label n) (childrenFromEdges ?es (tn_id n))
                    (fst (the (tn_position n))) (snd (the (tn_position n)))"
  have ser: "serializeToCSV (explicitFlowNodes ns) ?es = join [CHR 0x0A] (map ?line ns)"
    by (simp add: serializeToCSV_lines explicitFlowNodes_def comp_def)
  have shape: "CHR 0x0A \<notin> set (?line n) \<and> ?line n \<noteq> [] \<and> \<not> is_space (hd (?line n))
      \<and> \<not> is_space (last (?line n))" if "n \<in> set ns" for n
    using that wf lineOf_shape[OF _ _ edge_targets_wf[OF wf]] by (simp add: wfNode_def)
  have rb: "parseLine (?line n) = Some (readBack ?es n)" if "n \<in> set ns" for n
  proof -
    from ex that obtain x y where p: "tn_position n = Some (x, y)"
      by (auto simp add: hasExplicitPositions_def list_all_iff)
    with wf that have nn: "\<not> isNaN x" "\<not> isNaN y" "wfField (tn_id n)" "wfField (tn_label n)"
      by (auto simp add: wfNode_def)
    from parseLine_lineOf[OF nn(3,4) edge_targets_wf[OF wf] nn(1,2)] p
    show ?thesis by (simp add: readBack_def)
  qed
  have h: "hd (map ?line ns) = ?line (hd ns)" "last (map ?line ns) = ?line (last ns)"
    using False by (simp_all add: hd_map last_map)
  have "parseCSV (join [CHR 0x0A] (map ?line ns)) = List.map_filter parseLine (map ?line ns)"
  proof (rule parseCSV_lines)
    show "map ?line ns \<noteq> []" using False by simp
    show "\<forall>l \<in> set (map ?line ns). CHR 0x0A \<notin> set l" using shape by auto
    show "hd (map ?line ns) \<noteq> []" "\<not> is_space (hd (hd (map ?line ns)))"
      unfolding h using shape[of "hd ns"] False by simp_all
    show "last (map ?line ns) \<noteq> []" "\<not> is_space (last (last (map ?line ns)))"
      unfolding h using shape[of "last ns"] False by simp_all
  qed
  also have "\<dots> = List.map_filter (\<lambda>n. parseLine (?line n)) ns"
    by (rule map_filter_map)
  also have "\<dots> = map (readBack ?es) ns"
    using rb by (rule map_filter_all_some)
  finally show ?thesis by (simp only: ser)
qed

lemma childrenFromEdges_pairs:
  "childrenFromEdges (flowEdges ns) i = map snd (filter (\<lambda>p. fst p = i) (edgePairs ns))"
  by (simp add: childrenFromEdges_def flowEdges_pairs filter_map comp_def case_prod_beta)

lemma edgePairs_other_ids:
  "i \<notin> tn_id ` set ns \<Longrightarrow> filter (\<lambda>p. fst p = i) (edgePairs ns) = []"
  by (auto simp add: edgePairs_def filter_empty_conv)

lemma childrenFromEdges_distinct:
  assumes "distinct (map tn_id ns)" "n \<in> set ns"
  shows "childrenFromEdges (flowEdges ns) (tn_id n) = tn_children n"
proof -
  have "map snd (filter (\<lambda>p. fst p = tn_id n) (edgePairs ns)) = tn_children n"
    using assms
  proof (induction ns)
    case Nil
    then show ?case by simp
  next
    case (Cons m ms)
    have ep: "edgePairs (m # ms) = map (\<lambda>childId. (tn_id m, childId)) (tn_children m) @ edgePairs ms"
      by (simp add: edgePairs_def)
    show ?case
    proof (cases "n = m")
      case True
      with Cons.prems(1) have "tn_id n \<notin> tn_id ` set ms" by auto
      from edgePairs_other_ids[OF this] True show ?thesis
        by (simp add: ep filter_map comp_def)
    next
      case False
      with Cons.prems have in_ms: "n \<in> set ms" and d: "distinct (map tn_id ms)" by auto
      with Cons.prems(1) have "tn_id m \<noteq> tn_id n" by auto
      then have "filter (\<lambda>p. fst p = tn_id n) (map (\<lambda>childId. (tn_id m, childId)) (tn_children m)) = []"
        by (simp add: filter_empty_conv)
      with Cons.IH[OF d in_ms] show ?thesis by (simp add: ep)
    qed
  qed
  then show ?thesis by (simp add: childrenFromEdges_pairs)
qed

text \<open>A parsed node with its position rounded.\<close>

definition roundPosition :: "TreeNodeData \<Rightarrow> TreeNodeData" where
  "roundPosition n =
     n\<lparr>tn_position := map_option (\<lambda>(x, y). (mathRound x, mathRound y)) (tn_position n)\<rparr>"

text \<open>
  Claim C1. For every input text whose records all carry a valid position: parsing it,
  computing the layout, serializing the nodes and edges of the layout and parsing the
  result gives the parsed nodes back, in order, each with its id and label, with the
  children that the edge set gives for its id, and with its position rounded to integers.
  When the ids are distinct, the children that the edge set gives are the children of the
  record, so the second parse is the first one with rounded positions.
\<close>

theorem round_trip_with_edges:
  "hasExplicitPositions (parseCSV content) \<longrightarrow>
     parseCSV (serializeToCSV (lo_nodes (calculateTreeLayout (parseCSV content)))
                               (lo_edges (calculateTreeLayout (parseCSV content))))
       = map (readBack (lo_edges (calculateTreeLayout (parseCSV content)))) (parseCSV content)
     \<and> (distinct (map tn_id (parseCSV content)) \<longrightarrow>
          parseCSV (serializeToCSV (lo_nodes (calculateTreeLayout (parseCSV content)))
                                    (lo_edges (calculateTreeLayout (parseCSV content))))
            = map roundPosition (parseCSV content))"
proof (intro impI conjI)
  assume ex: "hasExplicitPositions (parseCSV content)"
  let ?ns = "parseCSV content"
  have n: "lo_nodes (calculateTreeLayout ?ns) = explicitFlowNodes ?ns"
    using ex by (simp add: calculateTreeLayout_def Let_def flowNodes_def)
  have e: "lo_edges (calculateTreeLayout ?ns) = flowEdges ?ns"
    by (simp add: calculateTreeLayout_def Let_def)
  have "\<forall>n \<in> set ?ns. wfNode n" using parseCSV_wf by blast
  from round_trip_nodes[OF this ex]
  show rt: "parseCSV (serializeToCSV (lo_nodes (calculateTreeLayout ?ns)) (lo_edges (calculateTreeLayout ?ns)))
       = map (readBack (lo_edges (calculateTreeLayout ?ns))) ?ns"
    by (simp only: n e)
  assume d: "distinct (map tn_id ?ns)"
  have "readBack (flowEdges ?ns) m = roundPosition m" if "m \<in> set ?ns" for m
    using childrenFromEdges_distinct[OF d that] by (simp add: readBack_def roundPosition_def)
  then have "map (readBack (flowEdges ?ns)) ?ns = map roundPosition ?ns" by simp
  with rt show "parseCSV (serializeToCSV (lo_nodes (calculateTreeLayout ?ns)) (lo_edges (calculateTreeLayout ?ns)))
       = map roundPosition ?ns"
    by (simp only: e)
qed

lemma explicitText_nodes:
  "parseCSV explicitText =
     [\<lparr>tn_id = ''0'', tn_label = ''Root'', tn_children = [''1'', ''2''], tn_position = Some (Fin 10, Fin 20)\<rparr>,
      \<lparr>tn_id = ''1'', tn_label = ''Foo'', tn_children = [], tn_position = Some (Fin (- (181 / 2)), Fin 140)\<rparr>,
      \<lparr>tn_id = ''2'', tn_label = ''Bar'', tn_children = [], tn_position = Some (Fin 110, Fin (281 / 2))\<rparr>]"
  by code_simp

theorem round_trip_with_edges_witness:
  "parseCSV (serializeToCSV (lo_nodes (calculateTreeLayout (parseCSV explicitText)))
                            (lo_edges (calculateTreeLayout (parseCSV explicitText))))
     = [\<lparr>tn_id = ''0'', tn_label = ''Root'', tn_children = [''1'', ''2''], tn_position = Some (Fin 10, Fin 20)\<rparr>,
        \<lparr>tn_id = ''1'', tn_label = ''Foo'', tn_children = [], tn_position = Some (Fin (- 90), Fin 140)\<rparr>,
        \<lparr>tn_id = ''2'', tn_label = ''Bar'', tn_children = [], tn_position = Some (Fin 110, Fin 141)\<rparr>]"
proof -
  have h: "hasExplicitPositions (parseCSV explicitText)"
    by (simp add: explicitText_nodes hasExplicitPositions_def)
  have d: "distinct (map tn_id (parseCSV explicitText))"
    by (simp add: explicitText_nodes)
  have r: "map roundPosition (parseCSV explicitText)
     = [\<lparr>tn_id = ''0'', tn_label = ''Root'', tn_children = [''1'', ''2''], tn_position = Some (Fin 10, Fin 20)\<rparr>,
        \<lparr>tn_id = ''1'', tn_label = ''Foo'', tn_children = [], tn_position = Some (Fin (- 90), Fin 140)\<rparr>,
        \<lparr>tn_id = ''2'', tn_label = ''Bar'', tn_children = [], tn_position = Some (Fin 110, Fin 141)\<rparr>]"
    by code_simp
  from round_trip_with_edges[of explicitText] h d show ?thesis unfolding r by blast
qed

lemma explicitText_serialized:
  "serializeToCSV (lo_nodes (calculateTreeLayout (parseCSV explicitText)))
                  (lo_edges (calculateTreeLayout (parseCSV explicitText)))
     = ''0,Root,1;2,10;20\<newline>1,Foo,,-90;140\<newline>2,Bar,,110;141''"
  by code_simp

end
